theory Spec2Isabelle
  imports Complex_Main "HOL-Library.Log_Nat"
begin

section \<open>Strings\<close>

text \<open>
  A Python \<open>str\<close> is a sequence of Unicode code points.  Code points are natural numbers,
  so that the characters NFKD produces (combining marks above U+00FF) have a place.
  \<open>ustr\<close> reads an ASCII literal as such a sequence.
\<close>

type_synonym codepoint = nat
type_synonym pystr = "codepoint list"

definition ustr :: "string \<Rightarrow> pystr" where
  "ustr s = map of_char s"

definition hyphen :: codepoint where "hyphen = 45"
definition space :: codepoint where "space = 32"

definition ascii_upper :: "codepoint \<Rightarrow> bool" where
  "ascii_upper c \<longleftrightarrow> 65 \<le> c \<and> c \<le> 90"

definition ascii_lower :: "codepoint \<Rightarrow> bool" where
  "ascii_lower c \<longleftrightarrow> 97 \<le> c \<and> c \<le> 122"

definition ascii_digit :: "codepoint \<Rightarrow> bool" where
  "ascii_digit c \<longleftrightarrow> 48 \<le> c \<and> c \<le> 57"

definition ascii_alnum :: "codepoint \<Rightarrow> bool" where
  "ascii_alnum c \<longleftrightarrow> ascii_upper c \<or> ascii_lower c \<or> ascii_digit c"

definition ascii_tolower :: "codepoint \<Rightarrow> codepoint" where
  "ascii_tolower c = (if ascii_upper c then c + 32 else c)"

text \<open>
  \<open>str.isspace\<close> of one code point: the white space of \<open>str.strip()\<close> and
  \<open>str.split()\<close> (U+0009..U+000D, U+001C..U+0020, U+0085, U+00A0, U+1680,
  U+2000..U+200A, U+2028, U+2029, U+202F, U+205F, U+3000).
\<close>

definition isspace :: "codepoint \<Rightarrow> bool" where
  "isspace c \<longleftrightarrow>
     (9 \<le> c \<and> c \<le> 13) \<or> (28 \<le> c \<and> c \<le> 32) \<or> c = 133 \<or> c = 160 \<or> c = 5760 \<or>
     (8192 \<le> c \<and> c \<le> 8202) \<or> c = 8232 \<or> c = 8233 \<or> c = 8239 \<or> c = 8287 \<or> c = 12288"

text \<open>\<open>text.strip()\<close>: leading and trailing white space removed.\<close>

definition py_strip :: "pystr \<Rightarrow> pystr" where
  "py_strip s = rev (dropWhile isspace (rev (dropWhile isspace s)))"

text \<open>
  \<open>text.split()\<close>: the maximal runs of non-space code points, in order; \<open>cur\<close> is the
  token being read.
\<close>

fun split_from :: "pystr \<Rightarrow> pystr \<Rightarrow> pystr list" where
  "split_from cur [] = (if cur = [] then [] else [cur])"
| "split_from cur (c # cs) =
     (if isspace c then (if cur = [] then split_from [] cs else cur # split_from [] cs)
      else split_from (cur @ [c]) cs)"

definition py_split :: "pystr \<Rightarrow> pystr list" where
  "py_split s = split_from [] s"

text \<open>\<open>text.replace(old, new)\<close> for one-character \<open>old\<close> and \<open>new\<close>.\<close>

definition py_replace :: "codepoint \<Rightarrow> codepoint \<Rightarrow> pystr \<Rightarrow> pystr" where
  "py_replace old new s = map (\<lambda>c. if c = old then new else c) s"

text \<open>
  \<open>text.encode('ASCII', 'ignore')\<close> drops every code point outside the 7-bit range;
  \<open>decode('ASCII')\<close> reads the bytes back as the same code points.
\<close>

definition encode_ascii_ignore :: "pystr \<Rightarrow> pystr" where
  "encode_ascii_ignore s = filter (\<lambda>c. c < 128) s"

definition decode_ascii :: "pystr \<Rightarrow> pystr" where
  "decode_ascii bs = bs"

subsection \<open>The Unicode tables\<close>

text \<open>
  \<open>str.lower\<close>, \<open>unicodedata.normalize('NFKD', _)\<close> and \<open>str.isalpha\<close> read the
  Unicode Character Database, which is not part of the program.  The tables are a
  parameter of every function that uses them:
  \<^item> \<open>str_lower\<close> is \<open>str.lower\<close>, a function on whole strings;
  \<open>normalize_NFKD\<close> is the NFKD normal form, a function on whole strings;
  \<^item> \<open>isalpha_cp\<close> says whether a code point is a letter (general category L*);
  \<open>isnumeric_cp\<close> whether it has a numeric type (decimal, digit or numeric).
\<close>

record unicode_data =
  str_lower :: "pystr \<Rightarrow> pystr"
  normalize_NFKD :: "pystr \<Rightarrow> pystr"
  isalpha_cp :: "codepoint \<Rightarrow> bool"
  isnumeric_cp :: "codepoint \<Rightarrow> bool"

text \<open>\<open>word.isalpha()\<close>: at least one code point, all of them letters.\<close>

definition isalpha :: "unicode_data \<Rightarrow> pystr \<Rightarrow> bool" where
  "isalpha U w \<longleftrightarrow> w \<noteq> [] \<and> list_all (isalpha_cp U) w"

text \<open>\<open>c.isalnum()\<close> of one code point: a letter or a numeric character.\<close>

definition isalnum_cp :: "unicode_data \<Rightarrow> codepoint \<Rightarrow> bool" where
  "isalnum_cp U c \<longleftrightarrow> isalpha_cp U c \<or> isnumeric_cp U c"

text \<open>
  What every table agrees on: on 7-bit text, \<open>str.lower\<close> maps A-Z to a-z and nothing
  else, NFKD changes nothing, the letters are A-Z and a-z and the numeric characters 0-9.
\<close>

definition ascii_conformant :: "unicode_data \<Rightarrow> bool" where
  "ascii_conformant U \<longleftrightarrow>
     (\<forall>s. (\<forall>c \<in> set s. c < 128) \<longrightarrow>
        str_lower U s = map ascii_tolower s \<and> normalize_NFKD U s = s) \<and>
     (\<forall>c < 128. isalpha_cp U c = (ascii_upper c \<or> ascii_lower c)) \<and>
     (\<forall>c < 128. isnumeric_cp U c = ascii_digit c)"

text \<open>
  An excerpt of the database: all of ASCII, LATIN CAPITAL and SMALL LETTER E WITH ACUTE
  (U+00C9, U+00E9: lower case U+00E9, decomposition e or E followed by U+0301) and
  TRADE MARK SIGN (U+2122: a symbol, compatibility decomposition TM).  It serves where a
  concrete table is needed.
\<close>

definition lower_excerpt :: "codepoint \<Rightarrow> codepoint" where
  "lower_excerpt c = (if ascii_upper c then c + 32 else if c = 201 then 233 else c)"

definition nfkd_excerpt :: "codepoint \<Rightarrow> pystr" where
  "nfkd_excerpt c =
     (if c = 201 then [69, 769] else if c = 233 then [101, 769]
      else if c = 8482 then [84, 77] else [c])"

definition ucd_excerpt :: unicode_data where
  "ucd_excerpt =
     \<lparr> str_lower = map lower_excerpt,
       normalize_NFKD = (\<lambda>s. concat (map nfkd_excerpt s)),
       isalpha_cp = (\<lambda>c. ascii_upper c \<or> ascii_lower c \<or> c = 201 \<or> c = 233),
       isnumeric_cp = ascii_digit \<rparr>"

section \<open>Text sanitizer\<close>

text \<open>
  Modelled from the spec: \<open>slugify\<close> is the function of the third-party \<open>slugify\<close>
  package, which is not under src/.  The spec's step 5: collapse runs of non-alphanumeric
  characters into single hyphens, strip leading and trailing hyphens, lowercase again.
  Alphanumeric means A-Z, a-z, 0-9; \<open>sanitize_text\<close> passes 7-bit text only.
\<close>

function collapse_runs :: "pystr \<Rightarrow> pystr" where
  "collapse_runs [] = []"
| "collapse_runs (c # cs) =
     (if ascii_alnum c then c # collapse_runs cs
      else hyphen # collapse_runs (dropWhile (\<lambda>d. \<not> ascii_alnum d) cs))"
  by pat_completeness auto
termination
  by (relation "measure length") (auto intro: le_imp_less_Suc length_dropWhile_le)

definition strip_hyphens :: "pystr \<Rightarrow> pystr" where
  "strip_hyphens s =
     rev (dropWhile (\<lambda>c. c = hyphen) (rev (dropWhile (\<lambda>c. c = hyphen) s)))"

definition slugify :: "pystr \<Rightarrow> pystr" where
  "slugify s = map ascii_tolower (strip_hyphens (collapse_runs s))"

text \<open>\<open>sanitize_text\<close>, statement by statement; the argument is a \<open>str\<close> by its type.\<close>

definition sanitize_text :: "unicode_data \<Rightarrow> pystr \<Rightarrow> pystr" where
  "sanitize_text U text0 =
     (let text1 = py_strip text0;
          text2 = str_lower U text1;
          text3 = normalize_NFKD U text2;
          text4 = encode_ascii_ignore text3;
          text5 = decode_ascii text4;
          text6 = slugify text5;
          text7 = py_replace hyphen space text6
      in text7)"

text \<open>
  The shape of a sanitized text: lowercase ASCII letters, digits and spaces only, no space
  at either end, no two spaces in a row.
\<close>

definition normal_text :: "pystr \<Rightarrow> bool" where
  "normal_text r \<longleftrightarrow>
     (\<forall>c \<in> set r. ascii_lower c \<or> ascii_digit c \<or> c = space) \<and>
     (r \<noteq> [] \<longrightarrow> hd r \<noteq> space \<and> last r \<noteq> space) \<and>
     successively (\<lambda>a b. \<not> (a = space \<and> b = space)) r"

section \<open>Errors\<close>

text \<open>
  The program raises \<open>ValueError\<close> with one message per check.  Each constructor is one
  message (or one family of messages that differ in the collection they name):
  \<^item> \<open>SchemaError\<close>: \<open>El archivo no tiene el formato correcto.\<close>
  \<^item> \<open>EmptyCategoryError k\<close>: \<open>El archivo no contiene palabras ...\<close> in \<open>load_words\<close>,
    \<open>El conjunto de palabras ... no puede estar vacio.\<close> and
    \<open>El tweet no puede estar vacio.\<close> elsewhere;
  \<^item> \<open>InvalidWordError k\<close>: \<open>El conjunto de palabras ... debe contener palabras.\<close>
  \<^item> \<open>DuplicateWordError\<close>: \<open>El archivo contiene palabras repetidas.\<close>
  The \<open>TypeError\<close> checks (\<open>isinstance\<close>) hold by the types of the arguments.
\<close>

datatype collection = Tweet | PositiveWords | NegativeWords | NeutralWords | AllWords

datatype error =
    SchemaError
  | EmptyCategoryError collection
  | InvalidWordError collection
  | DuplicateWordError

section \<open>Lexicon loader\<close>

text \<open>
  What \<open>json.load\<close> returns.  An object is the list of its items; a key is looked up
  with \<open>map_of\<close>.  The value of a number is never read.
\<close>

datatype json =
    JNull
  | JBool bool
  | JNumber rat
  | JString pystr
  | JArray "json list"
  | JObject "(pystr \<times> json) list"

text \<open>
  \<open>validate(instance=words, schema=WORDS_JSON_SCHEMA)\<close>, keyword by keyword:
  \<open>type: object\<close>; \<open>properties\<close>: each of the three keys, where present, holds an array
  (\<open>type: array\<close>) whose items are strings (\<open>items: type: string\<close>); \<open>required\<close>: the
  three keys are present; \<open>additionalProperties: False\<close>: no other key is.
\<close>

definition schema_properties :: "pystr list" where
  "schema_properties = [ustr ''positive'', ustr ''negative'', ustr ''neutral'']"

definition schema_required :: "pystr list" where
  "schema_required = [ustr ''positive'', ustr ''negative'', ustr ''neutral'']"

fun is_string :: "json \<Rightarrow> bool" where
  "is_string (JString s) = True"
| "is_string _ = False"

fun is_array_of_strings :: "json \<Rightarrow> bool" where
  "is_array_of_strings (JArray vs) = list_all is_string vs"
| "is_array_of_strings _ = False"

fun validate :: "json \<Rightarrow> bool" where
  "validate (JObject kvs) =
     (list_all (\<lambda>k. case map_of kvs k of None \<Rightarrow> True | Some v \<Rightarrow> is_array_of_strings v)
        schema_properties \<and>
      list_all (\<lambda>k. map_of kvs k \<noteq> None) schema_required \<and>
      list_all (\<lambda>k. k \<in> set schema_properties) (map fst kvs))"
| "validate _ = False"

text \<open>
  \<open>words[key]\<close> as a list of strings.  It is read only after \<open>validate\<close> has passed,
  when the key is present and holds an array of strings.
\<close>

fun strings_of :: "json \<Rightarrow> pystr list" where
  "strings_of (JArray vs) = concat (map (\<lambda>v. case v of JString s \<Rightarrow> [s] | _ \<Rightarrow> []) vs)"
| "strings_of _ = []"

fun getitem :: "json \<Rightarrow> pystr \<Rightarrow> pystr list" where
  "getitem (JObject kvs) key = (case map_of kvs key of Some v \<Rightarrow> strings_of v | None \<Rightarrow> [])"
| "getitem _ key = []"

text \<open>
  \<open>load_words\<close> from the decoded payload on (the path checks and the reading of the file
  come before).  The result is \<open>(positive, negative, neutral, all_words)\<close>.
\<close>

definition load_words ::
  "unicode_data \<Rightarrow> json \<Rightarrow> error + (pystr list \<times> pystr list \<times> pystr list \<times> pystr list)" where
  "load_words U words =
     (if \<not> validate words then Inl SchemaError
      else if getitem words (ustr ''positive'') = [] then Inl (EmptyCategoryError PositiveWords)
      else if getitem words (ustr ''negative'') = [] then Inl (EmptyCategoryError NegativeWords)
      else if getitem words (ustr ''neutral'') = [] then Inl (EmptyCategoryError NeutralWords)
      else
        let positive = map (sanitize_text U) (getitem words (ustr ''positive''));
            negative = map (sanitize_text U) (getitem words (ustr ''negative''));
            neutral = map (sanitize_text U) (getitem words (ustr ''neutral''));
            all_words = positive @ negative @ neutral
        in if length all_words \<noteq> card (set all_words) then Inl DuplicateWordError
           else Inr (positive, negative, neutral, all_words))"

section \<open>Vectorizer\<close>

text \<open>
  The vectors are numpy arrays of \<open>dtype=int\<close>; an entry counts matches of one text
  against one word list and stays far below 64 bits, so entries are integers.

  \<open>count_word\<close> is the inner loop of \<open>get_count_vector\<close> for one token,
  \<open>count_tokens\<close> the outer loop from the zero vector.
\<close>

definition count_word :: "pystr list \<Rightarrow> pystr \<Rightarrow> int list \<Rightarrow> int list" where
  "count_word words word count_vector =
     fold (\<lambda>(i, w) cv. if w = word then cv[i := cv ! i + 1] else cv)
       (enumerate 0 words) count_vector"

definition count_tokens :: "pystr list \<Rightarrow> pystr list \<Rightarrow> int list" where
  "count_tokens words tokens =
     fold (count_word words) tokens (replicate (length words) 0)"

definition get_count_vector :: "unicode_data \<Rightarrow> pystr \<Rightarrow> pystr list \<Rightarrow> error + int list" where
  "get_count_vector U text words =
     (if words = [] then Inl (EmptyCategoryError AllWords)
      else if \<not> list_all (isalpha U) words then Inl (InvalidWordError AllWords)
      else Inr (count_tokens words (py_split text)))"

section \<open>Classifier\<close>

text \<open>
  \<open>bump_matches slot ws current_word\<close> is one inner loop of
  \<open>get_classification_vector\<close>: the slot grows by one for every word of \<open>ws\<close> equal to
  the token.  \<open>classify_tokens\<close> is the outer loop from \<open>[0, 0, 0]\<close>.
\<close>

definition bump_matches :: "nat \<Rightarrow> pystr list \<Rightarrow> pystr \<Rightarrow> int list \<Rightarrow> int list" where
  "bump_matches slot ws current_word classification_vector =
     fold (\<lambda>word cv. if word = current_word then cv[slot := cv ! slot + 1] else cv)
       ws classification_vector"

definition classify_tokens ::
  "pystr list \<Rightarrow> pystr list \<Rightarrow> pystr list \<Rightarrow> pystr list \<Rightarrow> int list" where
  "classify_tokens positive_words neutral_words negative_words tokens =
     fold (\<lambda>current_word cv.
             bump_matches 2 negative_words current_word
               (bump_matches 1 neutral_words current_word
                 (bump_matches 0 positive_words current_word cv)))
       tokens [0, 0, 0]"

definition get_classification_vector ::
  "unicode_data \<Rightarrow> pystr list \<Rightarrow> pystr list \<Rightarrow> pystr list \<Rightarrow> pystr \<Rightarrow> error + int list" where
  "get_classification_vector U positive_words neutral_words negative_words text =
     (if positive_words = [] then Inl (EmptyCategoryError PositiveWords)
      else if negative_words = [] then Inl (EmptyCategoryError NegativeWords)
      else if neutral_words = [] then Inl (EmptyCategoryError NeutralWords)
      else if \<not> list_all (isalpha U) positive_words then Inl (InvalidWordError PositiveWords)
      else if \<not> list_all (isalpha U) negative_words then Inl (InvalidWordError NegativeWords)
      else if \<not> list_all (isalpha U) neutral_words then Inl (InvalidWordError NeutralWords)
      else Inr (classify_tokens positive_words neutral_words negative_words (py_split text)))"

section \<open>Floating point\<close>

text \<open>
  A Python float is an IEEE 754 binary64 number.  A finite float is modelled by the
  rational number it denotes.  \<open>fl x\<close> is \<open>x\<close> rounded to the nearest number with a
  significand of 53 bits, ties to the even significand: with \<open>2^e \<le> |x| < 2^(e+1)\<close> the
  floats around \<open>x\<close> are the multiples of \<open>2^(e-52)\<close>.  The true division of two ints,
  the cast of an integer to a float and the float operations \<open>+\<close> and \<open>*\<close> return the
  exact result rounded in this way.  The exponent is not bounded: the magnitudes of this
  program lie between \<open>1/len(all_words)\<close> and a sum of counts, far inside the range of
  binary64.
\<close>

definition exponent_of :: "rat \<Rightarrow> int" where
  "exponent_of x =
     (case quotient_of x of (p, q) \<Rightarrow>
        let k = bitlen p - bitlen q in if 2 powi k \<le> x then k else k - 1)"

definition round_half_even :: "rat \<Rightarrow> int" where
  "round_half_even y =
     (let f = \<lfloor>y\<rfloor>; d = y - of_int f
      in if d < 1 / 2 then f else if 1 / 2 < d then f + 1 else if even f then f else f + 1)"

definition fl :: "rat \<Rightarrow> rat" where
  "fl x =
     (if x = 0 then 0
      else let u = 2 powi (exponent_of \<bar>x\<bar> - 52)
           in sgn x * (of_int (round_half_even (\<bar>x\<bar> / u)) * u))"

definition float_add :: "rat \<Rightarrow> rat \<Rightarrow> rat" where
  "float_add a b = fl (a + b)"

definition float_mul :: "rat \<Rightarrow> rat \<Rightarrow> rat" where
  "float_mul a b = fl (a * b)"

definition float_of_int :: "int \<Rightarrow> rat" where
  "float_of_int c = fl (of_int c)"

definition int_truediv :: "int \<Rightarrow> int \<Rightarrow> rat" where
  "int_truediv a b = fl (of_int a / of_int b)"

text \<open>The unit roundoff of binary64.\<close>

definition eps :: rat where
  "eps = 1 / 2 ^ 53"

section \<open>Scorer\<close>

text \<open>
  \<open>classification_vector.T @ weight_vector\<close> is the dot product.

  \<open>sum(np.dot((1/len(all_words)), count_vector))\<close>: \<open>1/len(all_words)\<close> is the true
  division of two ints; \<open>np.dot\<close> of this float and the integer vector casts every count
  to a float and multiplies; the built-in \<open>sum\<close> adds the products from the left,
  starting at 0.
\<close>

definition dot :: "int list \<Rightarrow> int list \<Rightarrow> int" where
  "dot a b = sum_list (map2 (*) a b)"

definition quality_of :: "pystr list \<Rightarrow> int list \<Rightarrow> rat" where
  "quality_of all_words count_vector =
     fold (\<lambda>item result. float_add result item)
       (map (\<lambda>c. float_mul (int_truediv 1 (int (length all_words))) (float_of_int c))
          count_vector)
       0"

definition process_tweet ::
  "unicode_data \<Rightarrow> pystr \<Rightarrow> pystr list \<Rightarrow> pystr list \<Rightarrow> pystr list \<Rightarrow> pystr list \<Rightarrow>
   error + (int \<times> rat)" where
  "process_tweet U tweet positive_words negative_words neutral_words all_words =
     (if tweet = [] then Inl (EmptyCategoryError Tweet)
      else if positive_words = [] then Inl (EmptyCategoryError PositiveWords)
      else if negative_words = [] then Inl (EmptyCategoryError NegativeWords)
      else if neutral_words = [] then Inl (EmptyCategoryError NeutralWords)
      else if all_words = [] then Inl (EmptyCategoryError AllWords)
      else if \<not> list_all (isalpha U) positive_words then Inl (InvalidWordError PositiveWords)
      else if \<not> list_all (isalpha U) negative_words then Inl (InvalidWordError NegativeWords)
      else if \<not> list_all (isalpha U) neutral_words then Inl (InvalidWordError NeutralWords)
      else if \<not> list_all (isalpha U) all_words then Inl (InvalidWordError AllWords)
      else
        case get_count_vector U tweet all_words of
          Inl e \<Rightarrow> Inl e
        | Inr count_vector \<Rightarrow>
            (case get_classification_vector U positive_words neutral_words negative_words tweet of
               Inl e \<Rightarrow> Inl e
             | Inr classification_vector \<Rightarrow>
                 let weight_vector = [1, 0, - 1];
                     score = dot classification_vector weight_vector;
                     quality_index = quality_of all_words count_vector
                 in Inr (score, quality_index)))"

section \<open>The vocabulary of the properties\<close>

text \<open>
  A valid word list is non-empty and holds alphabetic words only; a valid input of
  \<open>process_tweet\<close> is a non-empty tweet with four valid word lists.
\<close>

definition valid_words :: "unicode_data \<Rightarrow> pystr list \<Rightarrow> bool" where
  "valid_words U ws \<longleftrightarrow> ws \<noteq> [] \<and> list_all (isalpha U) ws"

definition valid_input ::
  "unicode_data \<Rightarrow> pystr \<Rightarrow> pystr list \<Rightarrow> pystr list \<Rightarrow> pystr list \<Rightarrow> pystr list \<Rightarrow> bool" where
  "valid_input U tweet positive_words negative_words neutral_words all_words \<longleftrightarrow>
     tweet \<noteq> [] \<and> valid_words U positive_words \<and> valid_words U negative_words \<and>
     valid_words U neutral_words \<and> valid_words U all_words"

text \<open>
  \<open>matches ws tok\<close>: how many words of \<open>ws\<close> the token equals, counted by position.
  \<open>match_count ws tokens\<close>: the matches of all tokens together.
\<close>

definition matches :: "pystr list \<Rightarrow> pystr \<Rightarrow> nat" where
  "matches ws tok = length (filter (\<lambda>w. w = tok) ws)"

definition match_count :: "pystr list \<Rightarrow> pystr list \<Rightarrow> int" where
  "match_count ws tokens = sum_list (map (\<lambda>tok. int (matches ws tok)) tokens)"

text \<open>
  The words of a payload after sanitizing, category after category: a word that appears
  in two categories, or twice in one, appears twice in this list.
\<close>

definition sanitized_words :: "unicode_data \<Rightarrow> json \<Rightarrow> pystr list" where
  "sanitized_words U words =
     map (sanitize_text U)
       (getitem words (ustr ''positive'') @ getitem words (ustr ''negative'') @
        getitem words (ustr ''neutral''))"

text \<open>
  The top-level keys of a payload and the value under a key; a payload that is not an
  object has neither.  \<open>schema_violation\<close> is the spec's wording of a malformed payload:
  a required key is missing, or there is an additional key, or the value of a category
  is not an array of strings.
\<close>

fun keys_of :: "json \<Rightarrow> pystr set" where
  "keys_of (JObject kvs) = set (map fst kvs)"
| "keys_of _ = {}"

fun value_of :: "json \<Rightarrow> pystr \<Rightarrow> json option" where
  "value_of (JObject kvs) key = map_of kvs key"
| "value_of _ key = None"

definition category_keys :: "pystr set" where
  "category_keys = {ustr ''positive'', ustr ''negative'', ustr ''neutral''}"

definition schema_violation :: "json \<Rightarrow> bool" where
  "schema_violation words \<longleftrightarrow>
     (\<exists>k \<in> category_keys. k \<notin> keys_of words) \<or>
     (\<exists>k \<in> keys_of words. k \<notin> category_keys) \<or>
     (\<exists>k \<in> category_keys. \<exists>v. value_of words k = Some v \<and> \<not> is_array_of_strings v)"

section \<open>Properties of the sanitizer\<close>

lemmas ascii_defs = ascii_alnum_def ascii_upper_def ascii_lower_def ascii_digit_def
  ascii_tolower_def hyphen_def space_def isspace_def

lemmas eval_defs = ustr_def py_strip_def slugify_def strip_hyphens_def py_replace_def
  py_split_def ascii_defs

lemmas ucd_defs = ucd_excerpt_def lower_excerpt_def nfkd_excerpt_def isalpha_def

lemmas sanitize_defs = sanitize_text_def encode_ascii_ignore_def decode_ascii_def

lemma hyphen_not_alnum: "\<not> ascii_alnum hyphen"
  by (simp add: ascii_alnum_def hyphen_def ascii_upper_def ascii_lower_def ascii_digit_def)

lemma collapse_runs_set: "c \<in> set (collapse_runs s) \<Longrightarrow> ascii_alnum c \<or> c = hyphen"
  by (induction s rule: collapse_runs.induct) (auto split: if_splits)

lemma collapse_runs_after_run:
  "collapse_runs (dropWhile (\<lambda>d. \<not> ascii_alnum d) cs) = [] \<or>
   ascii_alnum (hd (collapse_runs (dropWhile (\<lambda>d. \<not> ascii_alnum d) cs)))"
proof (cases "dropWhile (\<lambda>d. \<not> ascii_alnum d) cs")
  case Nil
  show ?thesis unfolding Nil by simp
next
  case (Cons d ds)
  then have "ascii_alnum d" using hd_dropWhile [of "\<lambda>d. \<not> ascii_alnum d" cs] by auto
  with Cons show ?thesis by simp
qed

lemma collapse_runs_single: "successively (\<lambda>a b. \<not> (a = hyphen \<and> b = hyphen)) (collapse_runs s)"
proof (induction s rule: collapse_runs.induct)
  case 1
  show ?case by simp
next
  case (2 c cs)
  show ?case
  proof (cases "ascii_alnum c")
    case True
    with 2 hyphen_not_alnum show ?thesis by (auto simp: successively_Cons)
  next
    case False
    with 2 collapse_runs_after_run [of cs] hyphen_not_alnum show ?thesis
      by (auto simp: successively_Cons)
  qed
qed

lemma collapse_runs_has_alnum:
  "(\<exists>c \<in> set (collapse_runs s). ascii_alnum c) \<longleftrightarrow> (\<exists>c \<in> set s. ascii_alnum c)"
proof (induction s rule: collapse_runs.induct)
  case 1
  show ?case by simp
next
  case (2 c cs)
  show ?case
  proof (cases "ascii_alnum c")
    case True
    then show ?thesis by auto
  next
    case False
    have "(\<exists>d \<in> set (dropWhile (\<lambda>d. \<not> ascii_alnum d) cs). ascii_alnum d) \<longleftrightarrow> (\<exists>d \<in> set cs. ascii_alnum d)"
      by (induction cs) auto
    with False 2 hyphen_not_alnum show ?thesis by auto
  qed
qed

lemma strip_hyphens_set: "set (strip_hyphens s) \<subseteq> set s"
  unfolding strip_hyphens_def
  by (metis (no_types, lifting) set_dropWhileD set_rev subsetI)

lemma strip_hyphens_keeps: "c \<in> set s \<Longrightarrow> c \<noteq> hyphen \<Longrightarrow> c \<in> set (strip_hyphens s)"
proof -
  have keep: "\<And>xs. c \<in> set xs \<Longrightarrow> c \<noteq> hyphen \<Longrightarrow> c \<in> set (dropWhile (\<lambda>c. c = hyphen) xs)"
    subgoal for xs by (induction xs) auto
    done
  assume "c \<in> set s" "c \<noteq> hyphen"
  then show ?thesis unfolding strip_hyphens_def
    by (simp add: keep)
qed

lemma dropWhile_rev_hd:
  "dropWhile P xs \<noteq> [] \<Longrightarrow> rev (dropWhile Q (rev (dropWhile P xs))) \<noteq> [] \<Longrightarrow>
   hd (rev (dropWhile Q (rev (dropWhile P xs)))) = hd (dropWhile P xs)"
  by (metis append_Nil2 dropWhile_eq_Nil_conv hd_append2 rev_append rev_rev_ident set_rev takeWhile_dropWhile_id)

lemma strip_hyphens_hd: "strip_hyphens s \<noteq> [] \<Longrightarrow> hd (strip_hyphens s) \<noteq> hyphen"
  unfolding strip_hyphens_def
  using dropWhile_rev_hd [of "\<lambda>c. c = hyphen" s "\<lambda>c. c = hyphen"] hd_dropWhile [of "\<lambda>c. c = hyphen" s]
  by (metis dropWhile.simps(1) rev.simps(1))

lemma strip_hyphens_last: "strip_hyphens s \<noteq> [] \<Longrightarrow> last (strip_hyphens s) \<noteq> hyphen"
  unfolding strip_hyphens_def
  using hd_dropWhile [of "\<lambda>c. c = hyphen" "rev (dropWhile (\<lambda>c. c = hyphen) s)"]
  by (simp add: last_rev)


lemma successively_dropWhile: "successively P xs \<Longrightarrow> successively P (dropWhile Q xs)"
  by (induction xs) (auto simp: successively_Cons)

lemma successively_strip:
  assumes "successively P xs" and sym: "\<And>x y. P x y \<longleftrightarrow> P y x"
  shows "successively P (rev (dropWhile Q (rev (dropWhile Q xs))))"
proof -
  have rev_eq: "successively P (rev ys) \<longleftrightarrow> successively P ys" for ys
    unfolding successively_rev by (rule successively_cong) (use sym in auto)
  from assms(1) have "successively P (dropWhile Q xs)" by (rule successively_dropWhile)
  then have "successively P (rev (dropWhile Q xs))" by (simp only: rev_eq)
  then have "successively P (dropWhile Q (rev (dropWhile Q xs)))" by (rule successively_dropWhile)
  then show ?thesis by (simp only: rev_eq)
qed

lemma strip_hyphens_single:
  assumes "successively (\<lambda>a b. \<not> (a = hyphen \<and> b = hyphen)) s"
  shows "successively (\<lambda>a b. \<not> (a = hyphen \<and> b = hyphen)) (strip_hyphens s)"
  unfolding strip_hyphens_def using assms by (rule successively_strip) blast

lemma strip_hyphens_Nil_iff: "strip_hyphens s = [] \<longleftrightarrow> (\<forall>c \<in> set s. c = hyphen)"
proof
  assume "strip_hyphens s = []"
  then show "\<forall>c \<in> set s. c = hyphen"
    using strip_hyphens_keeps [of _ s] by fastforce
next
  assume "\<forall>c \<in> set s. c = hyphen"
  then show "strip_hyphens s = []"
    by (auto simp: strip_hyphens_def dest: set_dropWhileD)
qed

lemma strip_hyphens_id:
  assumes "s = [] \<or> (hd s \<noteq> hyphen \<and> last s \<noteq> hyphen)"
  shows "strip_hyphens s = s"
proof (cases s)
  case Nil
  then show ?thesis by (simp add: strip_hyphens_def)
next
  case (Cons c cs)
  with assms have h: "c \<noteq> hyphen" and l: "last s \<noteq> hyphen" by auto
  from h Cons have 1: "dropWhile (\<lambda>c. c = hyphen) s = s" by simp
  from Cons have ne: "s \<noteq> []" by simp
  then have "hd (rev s) = last s" by (simp add: hd_rev)
  with l have "hd (rev s) \<noteq> hyphen" by simp
  moreover from ne have "rev s \<noteq> []" by simp
  ultimately have 2: "dropWhile (\<lambda>c. c = hyphen) (rev s) = rev s"
    by (cases "rev s") auto
  show ?thesis by (simp add: strip_hyphens_def 1 2)
qed

lemma slugify_chars:
  "c \<in> set (slugify s) \<Longrightarrow> ascii_lower c \<or> ascii_digit c \<or> c = hyphen"
proof -
  assume "c \<in> set (slugify s)"
  then obtain d where d: "d \<in> set (strip_hyphens (collapse_runs s))" and c: "c = ascii_tolower d"
    by (auto simp: slugify_def)
  from d have "ascii_alnum d \<or> d = hyphen"
    using strip_hyphens_set collapse_runs_set by blast
  with c show ?thesis
    by (auto simp: ascii_tolower_def ascii_alnum_def ascii_upper_def ascii_lower_def
        ascii_digit_def hyphen_def)
qed

lemma ascii_tolower_hyphen_iff: "ascii_tolower c = hyphen \<longleftrightarrow> c = hyphen"
  by (auto simp: ascii_tolower_def ascii_upper_def hyphen_def)

lemma slugify_single: "successively (\<lambda>a b. \<not> (a = hyphen \<and> b = hyphen)) (slugify s)"
  unfolding slugify_def
  using strip_hyphens_single [OF collapse_runs_single [of s]]
  by (simp add: successively_map ascii_tolower_hyphen_iff)

lemma slugify_ends: "slugify s \<noteq> [] \<Longrightarrow> hd (slugify s) \<noteq> hyphen \<and> last (slugify s) \<noteq> hyphen"
  unfolding slugify_def
  using strip_hyphens_hd [of "collapse_runs s"] strip_hyphens_last [of "collapse_runs s"]
  by (simp add: hd_map last_map ascii_tolower_hyphen_iff)

lemma slugify_Nil_iff: "slugify s = [] \<longleftrightarrow> (\<forall>c \<in> set s. \<not> ascii_alnum c)"
proof -
  have "slugify s = [] \<longleftrightarrow> (\<forall>c \<in> set (collapse_runs s). c = hyphen)"
    by (simp add: slugify_def strip_hyphens_Nil_iff)
  also have "\<dots> \<longleftrightarrow> \<not> (\<exists>c \<in> set (collapse_runs s). ascii_alnum c)"
    by (metis collapse_runs_set hyphen_not_alnum)
  also have "\<dots> \<longleftrightarrow> (\<forall>c \<in> set s. \<not> ascii_alnum c)"
    by (simp add: collapse_runs_has_alnum)
  finally show ?thesis .
qed

lemma sanitize_text_eq: "sanitize_text U s =
  py_replace hyphen space (slugify (encode_ascii_ignore (normalize_NFKD U (str_lower U (py_strip s)))))"
  by (simp add: sanitize_text_def decode_ascii_def)

lemma replace_space_iff: "(if c = hyphen then space else c) = space \<longleftrightarrow> c = hyphen \<or> c = space"
  by auto

lemma sanitize_text_normal: "normal_text (sanitize_text U s)"
proof -
  define t where "t = slugify (encode_ascii_ignore (normalize_NFKD U (str_lower U (py_strip s))))"
  have r: "sanitize_text U s = py_replace hyphen space t"
    by (simp add: sanitize_text_eq t_def)
  have chars: "\<forall>c \<in> set t. ascii_lower c \<or> ascii_digit c \<or> c = hyphen"
    unfolding t_def using slugify_chars by blast
  then have nospace: "\<forall>c \<in> set t. c \<noteq> space"
    by (auto simp: ascii_lower_def ascii_digit_def hyphen_def space_def)
  have 1: "\<forall>c \<in> set (py_replace hyphen space t). ascii_lower c \<or> ascii_digit c \<or> c = space"
    using chars by (auto simp: py_replace_def)
  have 2: "py_replace hyphen space t \<noteq> [] \<longrightarrow>
      hd (py_replace hyphen space t) \<noteq> space \<and> last (py_replace hyphen space t) \<noteq> space"
  proof
    assume "py_replace hyphen space t \<noteq> []"
    then have ne: "t \<noteq> []" by (simp add: py_replace_def)
    then have "hd t \<noteq> hyphen \<and> last t \<noteq> hyphen" unfolding t_def by (rule slugify_ends)
    moreover from ne nospace have "hd t \<noteq> space \<and> last t \<noteq> space" by simp
    ultimately show "hd (py_replace hyphen space t) \<noteq> space \<and> last (py_replace hyphen space t) \<noteq> space"
      using ne by (simp add: py_replace_def hd_map last_map)
  qed
  have "successively (\<lambda>a b. \<not> (a = hyphen \<and> b = hyphen)) t"
    unfolding t_def by (rule slugify_single)
  then have 3: "successively (\<lambda>a b. \<not> (a = space \<and> b = space)) (py_replace hyphen space t)"
    using nospace unfolding py_replace_def successively_map
    by (induction t rule: induct_list012) auto
  from 1 2 3 show ?thesis unfolding r normal_text_def by blast
qed


lemma collapse_runs_normal:
  assumes "\<forall>c \<in> set r. ascii_alnum c \<or> c = space"
    and "successively (\<lambda>a b. \<not> (a = space \<and> b = space)) r"
  shows "collapse_runs r = py_replace space hyphen r"
  using assms
proof (induction r rule: collapse_runs.induct)
  case 1
  show ?case by (simp add: py_replace_def)
next
  case (2 c cs)
  have space_not_alnum: "\<not> ascii_alnum space"
    by (simp add: ascii_alnum_def space_def ascii_upper_def ascii_lower_def ascii_digit_def)
  from "2.prems" have tl: "\<forall>c \<in> set cs. ascii_alnum c \<or> c = space"
    and tls: "successively (\<lambda>a b. \<not> (a = space \<and> b = space)) cs"
    by (auto simp: successively_Cons)
  show ?case
  proof (cases "ascii_alnum c")
    case True
    with "2.IH"(1) tl tls space_not_alnum show ?thesis
      by (auto simp: py_replace_def)
  next
    case False
    with "2.prems" have c: "c = space" by simp
    have same: "dropWhile (\<lambda>d. \<not> ascii_alnum d) cs = cs"
    proof (cases cs)
      case Nil
      then show ?thesis by simp
    next
      case (Cons d ds)
      with "2.prems" c have "d \<noteq> space" by simp
      with tl Cons have "ascii_alnum d" by auto
      with Cons show ?thesis by simp
    qed
    from "2.IH"(2) [OF False] tl tls same
    have "collapse_runs cs = py_replace space hyphen cs" by simp
    with False c same show ?thesis by (simp add: py_replace_def)
  qed
qed

lemma py_strip_id:
  assumes "s = [] \<or> (\<not> isspace (hd s) \<and> \<not> isspace (last s))"
  shows "py_strip s = s"
proof (cases s)
  case Nil
  then show ?thesis by (simp add: py_strip_def)
next
  case (Cons c cs)
  with assms have h: "\<not> isspace c" and l: "\<not> isspace (last s)" by auto
  from h Cons have 1: "dropWhile isspace s = s" by simp
  from Cons have ne: "s \<noteq> []" by simp
  then have "hd (rev s) = last s" by (simp add: hd_rev)
  with l have "\<not> isspace (hd (rev s))" by simp
  moreover from ne have "rev s \<noteq> []" by simp
  ultimately have 2: "dropWhile isspace (rev s) = rev s"
    by (cases "rev s") auto
  show ?thesis by (simp add: py_strip_def 1 2)
qed

lemma sanitize_text_fixes_normal:
  assumes U: "ascii_conformant U" and r: "normal_text r"
  shows "sanitize_text U r = r"
proof -
  from r have chars: "\<forall>c \<in> set r. ascii_lower c \<or> ascii_digit c \<or> c = space"
    and ends: "r \<noteq> [] \<longrightarrow> hd r \<noteq> space \<and> last r \<noteq> space"
    and single: "successively (\<lambda>a b. \<not> (a = space \<and> b = space)) r"
    by (auto simp: normal_text_def)
  have sp: "isspace c \<longleftrightarrow> c = space" if "c \<in> set r" for c
    using chars that by (auto simp: isspace_def ascii_lower_def ascii_digit_def space_def)
  have "r = [] \<or> (\<not> isspace (hd r) \<and> \<not> isspace (last r))"
    using ends sp by (cases "r = []") auto
  then have 1: "py_strip r = r" by (rule py_strip_id)
  have ascii: "\<forall>c \<in> set r. c < 128"
    using chars by (auto simp: ascii_lower_def ascii_digit_def space_def)
  have low: "map ascii_tolower r = r"
    using chars by (intro map_idI) (auto simp: ascii_tolower_def ascii_upper_def ascii_lower_def
        ascii_digit_def space_def)
  from U ascii have 2: "str_lower U r = r" and 3: "normalize_NFKD U r = r"
    using low by (auto simp: ascii_conformant_def)
  from ascii have 4: "encode_ascii_ignore r = r" by (simp add: encode_ascii_ignore_def)
  have an: "\<forall>c \<in> set r. ascii_alnum c \<or> c = space"
    using chars by (auto simp: ascii_alnum_def)
  then have 5: "collapse_runs r = py_replace space hyphen r"
    using single by (rule collapse_runs_normal)
  have nohy: "\<forall>c \<in> set r. c \<noteq> hyphen"
    using chars by (auto simp: ascii_lower_def ascii_digit_def space_def hyphen_def)
  have "py_replace space hyphen r = [] \<or>
      (hd (py_replace space hyphen r) \<noteq> hyphen \<and> last (py_replace space hyphen r) \<noteq> hyphen)"
    using ends nohy by (cases "r = []") (auto simp: py_replace_def hd_map last_map)
  then have 6: "strip_hyphens (py_replace space hyphen r) = py_replace space hyphen r"
    by (rule strip_hyphens_id)
  have 7: "map ascii_tolower (py_replace space hyphen r) = py_replace space hyphen r"
    using chars by (auto simp: py_replace_def ascii_tolower_def ascii_upper_def ascii_lower_def
        ascii_digit_def space_def hyphen_def)
  have 8: "py_replace hyphen space (py_replace space hyphen r) = r"
    unfolding py_replace_def map_map using nohy by (intro map_idI) auto
  show ?thesis
    by (simp add: sanitize_text_eq 1 2 3 4 slugify_def 5 6 7 8)
qed

lemma ucd_excerpt_conformant: "ascii_conformant ucd_excerpt"
proof -
  have l: "lower_excerpt c = ascii_tolower c" if "c < 128" for c
    using that by (simp add: lower_excerpt_def ascii_tolower_def)
  have n: "nfkd_excerpt c = [c]" if "c < 128" for c
    using that by (simp add: nfkd_excerpt_def)
  have "concat (map nfkd_excerpt s) = s" if "\<forall>c \<in> set s. c < 128" for s
    using that by (induction s) (simp_all add: n)
  then show ?thesis
    by (auto simp: ascii_conformant_def ucd_excerpt_def l)
qed

lemma sanitize_text_ascii:
  assumes U: "ascii_conformant U" and s: "list_all (\<lambda>c. c < 128) s"
  shows "sanitize_text U s = py_replace hyphen space (slugify (map ascii_tolower (py_strip s)))"
proof -
  have sub: "set (py_strip s) \<subseteq> set s"
    unfolding py_strip_def by (metis (no_types, lifting) set_dropWhileD set_rev subsetI)
  with s have 1: "\<forall>c \<in> set (py_strip s). c < 128" by (auto simp: list_all_iff)
  with U have l: "str_lower U (py_strip s) = map ascii_tolower (py_strip s)"
    by (simp add: ascii_conformant_def)
  from 1 have 2: "\<forall>c \<in> set (map ascii_tolower (py_strip s)). c < 128"
    by (auto simp: ascii_tolower_def ascii_upper_def)
  with U have n: "normalize_NFKD U (map ascii_tolower (py_strip s)) = map ascii_tolower (py_strip s)"
    by (simp add: ascii_conformant_def)
  from 2 have e: "encode_ascii_ignore (map ascii_tolower (py_strip s)) = map ascii_tolower (py_strip s)"
    by (simp add: encode_ascii_ignore_def)
  show ?thesis by (simp add: sanitize_text_eq l n e)
qed

lemma isalpha_ascii:
  assumes U: "ascii_conformant U" and w: "list_all (\<lambda>c. c < 128) w"
  shows "isalpha U w \<longleftrightarrow> w \<noteq> [] \<and> list_all (\<lambda>c. ascii_upper c \<or> ascii_lower c) w"
  using assms by (auto simp: isalpha_def ascii_conformant_def list_all_iff)

lemma excerpt_words:
  "isalpha ucd_excerpt (ustr ''bueno'')" "isalpha ucd_excerpt (ustr ''malo'')"
  "isalpha ucd_excerpt (ustr ''dia'')" "isalpha ucd_excerpt (ustr ''a'')"
  by (simp_all add: ucd_defs eval_defs)

lemma excerpt_sanitized:
  "sanitize_text ucd_excerpt (ustr ''malo'') = ustr ''malo''"
  "sanitize_text ucd_excerpt (ustr ''dia'') = ustr ''dia''"
  "sanitize_text ucd_excerpt (ustr ''cafe'') = ustr ''cafe''"
  "sanitize_text ucd_excerpt (ustr ''abc123'') = ustr ''abc123''"
  "sanitize_text ucd_excerpt (ustr ''Caf'' @ [233]) = ustr ''cafe''"
  by (simp_all add: sanitize_defs ucd_defs eval_defs)

section \<open>Properties of the rounding\<close>

lemma pow2_pos: "(0::rat) < 2 powi e"
  by (simp add: zero_less_power_int)

lemma exponent_of_bounds:
  assumes "0 < x"
  shows "2 powi exponent_of x \<le> x \<and> x < 2 powi (exponent_of x + 1)"
proof -
  obtain p q where pq: "quotient_of x = (p, q)" by (cases "quotient_of x")
  then have q: "0 < q" and x: "x = of_int p / of_int q"
    by (auto dest: quotient_of_denom_pos quotient_of_div)
  with assms have p: "0 < p" by (simp add: zero_less_divide_iff)
  define k where "k = bitlen p - bitlen q"
  have bp: "1 \<le> bitlen p" and bq: "1 \<le> bitlen q"
    using p q bitlen_eq_zero_iff [of p] bitlen_eq_zero_iff [of q] bitlen_nonneg [of p] bitlen_nonneg [of q]
    by linarith+
  from bitlen_bounds [OF p] bp have p1: "(2::rat) powi (bitlen p - 1) \<le> of_int p"
    and p2: "of_int p < (2::rat) powi bitlen p"
    by (simp_all add: power_int_nonneg_exp flip: of_int_power_le_of_int_cancel_iff
        of_int_less_of_int_power_cancel_iff)
  from bitlen_bounds [OF q] bq have q1: "(2::rat) powi (bitlen q - 1) \<le> of_int q"
    and q2: "of_int q < (2::rat) powi bitlen q"
    by (simp_all add: power_int_nonneg_exp flip: of_int_power_le_of_int_cancel_iff
        of_int_less_of_int_power_cancel_iff)
  have qpos: "(0::rat) < of_int q" using q by simp
  have upper: "x < 2 powi (k + 1)"
  proof -
    have "x < 2 powi bitlen p / of_int q"
      unfolding x using p2 qpos by (simp add: divide_strict_right_mono)
    also have "\<dots> \<le> 2 powi bitlen p / 2 powi (bitlen q - 1)"
      using q1 pow2_pos [of "bitlen q - 1"] pow2_pos [of "bitlen p"]
      by (intro frac_le) auto
    also have "\<dots> = 2 powi (bitlen p - (bitlen q - 1))"
      by (simp add: power_int_diff)
    also have "bitlen p - (bitlen q - 1) = k + 1" by (simp add: k_def)
    finally show ?thesis .
  qed
  have lower: "2 powi (k - 1) \<le> x"
  proof -
    have "(2::rat) powi (k - 1) = 2 powi (bitlen p - 1 - bitlen q)"
      by (simp add: k_def algebra_simps)
    also have "\<dots> = 2 powi (bitlen p - 1) / 2 powi bitlen q"
      by (simp add: power_int_diff)
    also have "\<dots> \<le> of_int p / 2 powi bitlen q"
      using p1 pow2_pos [of "bitlen q"] by (simp add: divide_right_mono)
    also have "\<dots> \<le> of_int p / of_int q"
      using q2 qpos p by (intro frac_le) auto
    finally show ?thesis unfolding x .
  qed
  have e: "exponent_of x = (if 2 powi k \<le> x then k else k - 1)"
    by (simp add: exponent_of_def pq k_def Let_def)
  show ?thesis
  proof (cases "2 powi k \<le> x")
    case True
    with e upper show ?thesis by simp
  next
    case False
    with e lower show ?thesis by simp
  qed
qed

lemma exponent_of_unique:
  assumes "2 powi e \<le> x" and "x < 2 powi (e + 1)"
  shows "exponent_of x = e"
proof -
  from assms(1) have pos: "0 < x" using pow2_pos [of e] by linarith
  let ?d = "exponent_of x"
  from exponent_of_bounds [OF pos] have 1: "2 powi ?d \<le> x" and 2: "x < 2 powi (?d + 1)" by auto
  have "\<not> e < ?d"
  proof
    assume "e < ?d"
    then have "(2::rat) powi (e + 1) \<le> 2 powi ?d" by (intro power_int_increasing) auto
    with 1 assms(2) show False by linarith
  qed
  moreover have "\<not> ?d < e"
  proof
    assume "?d < e"
    then have "(2::rat) powi (?d + 1) \<le> 2 powi e" by (intro power_int_increasing) auto
    with 2 assms(1) show False by linarith
  qed
  ultimately show ?thesis by linarith
qed

lemma round_half_even_error: "\<bar>of_int (round_half_even y) - y\<bar> \<le> 1 / 2"
proof -
  have "of_int \<lfloor>y\<rfloor> \<le> y" "y < of_int \<lfloor>y\<rfloor> + 1" by linarith+
  then show ?thesis
    unfolding round_half_even_def Let_def by (auto simp: abs_le_iff)
qed

lemma round_half_even_nonneg: "0 \<le> y \<Longrightarrow> 0 \<le> round_half_even y"
  unfolding round_half_even_def Let_def by auto

lemma fl_pos:
  assumes "0 < x"
  shows "fl x = of_int (round_half_even (x / 2 powi (exponent_of x - 52))) * 2 powi (exponent_of x - 52)"
  using assms by (simp add: fl_def Let_def)

lemma fl_eval:
  assumes "2 powi e \<le> x" and "x < 2 powi (e + 1)"
  shows "fl x = of_int (round_half_even (x / 2 powi (e - 52))) * 2 powi (e - 52)"
proof -
  from assms(1) have pos: "0 < x" using pow2_pos [of e] by linarith
  show ?thesis unfolding fl_pos [OF pos] exponent_of_unique [OF assms] ..
qed

lemma fl_error:
  assumes "0 \<le> x"
  shows "(1 - eps) * x \<le> fl x \<and> fl x \<le> (1 + eps) * x"
proof (cases "x = 0")
  case True
  then show ?thesis by (simp add: fl_def)
next
  case False
  with assms have pos: "0 < x" by simp
  define e where "e = exponent_of x"
  define u :: rat where "u = 2 powi (e - 52)"
  have u: "0 < u" unfolding u_def by (rule pow2_pos)
  have low: "2 powi e \<le> x" using exponent_of_bounds [OF pos] by (simp add: e_def)
  have "u / 2 = 2 powi e * eps"
    unfolding u_def eps_def by (simp add: power_int_diff)
  with low have half: "u / 2 \<le> x * eps"
    by (simp add: eps_def mult.commute divide_right_mono)
  define m where "m = round_half_even (x / u)"
  have f: "fl x = of_int m * u"
    unfolding m_def u_def e_def by (rule fl_pos [OF pos])
  have "\<bar>of_int m - x / u\<bar> \<le> 1 / 2" unfolding m_def by (rule round_half_even_error)
  then have "\<bar>of_int m - x / u\<bar> * u \<le> 1 / 2 * u"
    using u by (intro mult_right_mono) auto
  moreover have "\<bar>of_int m - x / u\<bar> * u = \<bar>of_int m * u - x\<bar>"
  proof -
    have "(of_int m - x / u) * u = of_int m * u - x" using u by (simp add: field_simps)
    then have "\<bar>of_int m * u - x\<bar> = \<bar>of_int m - x / u\<bar> * \<bar>u\<bar>" by (simp flip: abs_mult)
    with u show ?thesis by simp
  qed
  ultimately have "\<bar>fl x - x\<bar> \<le> u / 2" by (simp add: f)
  with half have "\<bar>fl x - x\<bar> \<le> x * eps" by linarith
  then show ?thesis by (simp add: abs_le_iff algebra_simps)
qed

lemma fl_nonneg: "0 \<le> x \<Longrightarrow> 0 \<le> fl x"
proof -
  assume x: "0 \<le> x"
  have "0 \<le> (1 - eps) * x" using x by (simp add: eps_def)
  with fl_error [OF x] show ?thesis by linarith
qed

lemma floor_rat_numeral: "\<lfloor>(numeral a :: rat) / numeral b\<rfloor> = numeral a div numeral b"
  using floor_divide_of_int_eq [of "numeral a" "numeral b", where ?'a = rat] by simp

lemma fl_third: "fl (1 / 3) = 6004799503160661 / 18014398509481984"
  by (subst fl_eval [where e = "- 2"]) (simp_all add: round_half_even_def Let_def floor_rat_numeral)

lemma fl_tenth: "fl (1 / 10) = 7205759403792794 / 72057594037927936"
  by (subst fl_eval [where e = "- 4"]) (simp_all add: round_half_even_def Let_def floor_rat_numeral)

lemma eps_bounds: "0 < eps" "eps < 1" "0 < 1 - eps" "1 - eps \<le> 1" "1 \<le> 1 + eps"
  by (simp_all add: eps_def)

lemma item_bounds:
  assumes n: "0 < n" and c: "0 \<le> c"
  shows "(1 - eps) ^ 3 * (of_int c / of_nat n)
           \<le> float_mul (int_truediv 1 (int n)) (float_of_int c) \<and>
         float_mul (int_truediv 1 (int n)) (float_of_int c)
           \<le> (1 + eps) ^ 3 * (of_int c / of_nat n)"
proof -
  let ?a = "1 - eps" and ?b = "1 + eps"
  define r where "r = fl (1 / of_nat n)"
  define t where "t = fl (of_int c)"
  have inv: "(0::rat) \<le> 1 / of_nat n" by simp
  have cq: "(0::rat) \<le> of_int c" using c by simp
  from fl_error [OF inv] have r1: "?a * (1 / of_nat n) \<le> r" and r2: "r \<le> ?b * (1 / of_nat n)"
    by (simp_all add: r_def)
  from fl_error [OF cq] have t1: "?a * of_int c \<le> t" and t2: "t \<le> ?b * of_int c"
    by (simp_all add: t_def)
  have a0: "0 \<le> ?a" using eps_bounds by simp
  have r0: "0 \<le> r" unfolding r_def using inv by (rule fl_nonneg)
  have t0: "0 \<le> t" unfolding t_def using cq by (rule fl_nonneg)
  have rt0: "0 \<le> r * t" using r0 t0 by simp
  have lo: "(?a * (1 / of_nat n)) * (?a * of_int c) \<le> r * t"
    using r1 t1 a0 cq r0 by (intro mult_mono) auto
  have hi: "r * t \<le> (?b * (1 / of_nat n)) * (?b * of_int c)"
    using r2 t2 r0 t0 eps_bounds by (intro mult_mono) auto
  from fl_error [OF rt0] have f1: "?a * (r * t) \<le> fl (r * t)" and f2: "fl (r * t) \<le> ?b * (r * t)"
    by simp_all
  have "?a * ((?a * (1 / of_nat n)) * (?a * of_int c)) \<le> ?a * (r * t)"
    using lo a0 by (rule mult_left_mono)
  with f1 have L: "?a * ((?a * (1 / of_nat n)) * (?a * of_int c)) \<le> fl (r * t)" by linarith
  have "?b * (r * t) \<le> ?b * ((?b * (1 / of_nat n)) * (?b * of_int c))"
    using hi eps_bounds by (intro mult_left_mono) auto
  with f2 have H: "fl (r * t) \<le> ?b * ((?b * (1 / of_nat n)) * (?b * of_int c))" by linarith
  have e1: "?a * ((?a * (1 / of_nat n)) * (?a * of_int c)) = ?a ^ 3 * (of_int c / of_nat n)"
    by (simp add: power3_eq_cube)
  have e2: "?b * ((?b * (1 / of_nat n)) * (?b * of_int c)) = ?b ^ 3 * (of_int c / of_nat n)"
    by (simp add: power3_eq_cube)
  from L H show ?thesis
    unfolding e1 e2 float_mul_def int_truediv_def float_of_int_def r_def t_def by simp
qed

lemma sum_fold_bounds:
  assumes n: "0 < n" and cs: "\<forall>c \<in> set cs. 0 \<le> c" and k: "3 \<le> k" and E: "0 \<le> E"
    and lo: "(1 - eps) ^ k * E \<le> acc" and hi: "acc \<le> (1 + eps) ^ k * E"
  shows "(1 - eps) ^ (k + length cs) * (E + of_int (sum_list cs) / of_nat n)
           \<le> fold (\<lambda>item result. float_add result item)
                (map (\<lambda>c. float_mul (int_truediv 1 (int n)) (float_of_int c)) cs) acc \<and>
         fold (\<lambda>item result. float_add result item)
                (map (\<lambda>c. float_mul (int_truediv 1 (int n)) (float_of_int c)) cs) acc
           \<le> (1 + eps) ^ (k + length cs) * (E + of_int (sum_list cs) / of_nat n)"
  using cs k E lo hi
proof (induction cs arbitrary: k E acc)
  case Nil
  then show ?case by simp
next
  case (Cons c cs)
  let ?a = "1 - eps" and ?b = "1 + eps"
  let ?x = "float_mul (int_truediv 1 (int n)) (float_of_int c)"
  let ?q = "(of_int c / of_nat n) :: rat"
  from Cons.prems have c: "0 \<le> c" and cs: "\<forall>c \<in> set cs. 0 \<le> c" by auto
  have q: "0 \<le> ?q" using c by simp
  from item_bounds [OF n c] have x1: "?a ^ 3 * ?q \<le> ?x" and x2: "?x \<le> ?b ^ 3 * ?q" by auto
  have a: "0 \<le> ?a" "?a \<le> 1" and b: "1 \<le> ?b" using eps_bounds by auto
  have "?a ^ k \<le> ?a ^ 3" using \<open>3 \<le> k\<close> a by (intro power_decreasing) auto
  then have "?a ^ k * ?q \<le> ?a ^ 3 * ?q" using q by (rule mult_right_mono)
  with x1 Cons.prems(4) have lo': "?a ^ k * (E + ?q) \<le> acc + ?x"
    by (simp add: algebra_simps)
  have "?b ^ 3 \<le> ?b ^ k" using \<open>3 \<le> k\<close> b by (intro power_increasing) auto
  then have "?b ^ 3 * ?q \<le> ?b ^ k * ?q" using q by (rule mult_right_mono)
  with x2 Cons.prems(5) have hi': "acc + ?x \<le> ?b ^ k * (E + ?q)"
    by (simp add: algebra_simps)
  have Eq: "0 \<le> E + ?q" using \<open>0 \<le> E\<close> q by simp
  have "0 \<le> ?a ^ k * (E + ?q)" using a Eq by simp
  with lo' have s0: "0 \<le> acc + ?x" by linarith
  from fl_error [OF s0] have f1: "?a * (acc + ?x) \<le> fl (acc + ?x)"
    and f2: "fl (acc + ?x) \<le> ?b * (acc + ?x)" by auto
  have "?a * (?a ^ k * (E + ?q)) \<le> ?a * (acc + ?x)" using lo' a(1) by (rule mult_left_mono)
  with f1 have L: "?a ^ Suc k * (E + ?q) \<le> float_add acc ?x"
    by (simp add: float_add_def mult.assoc)
  have "?b * (acc + ?x) \<le> ?b * (?b ^ k * (E + ?q))" using hi' b by (intro mult_left_mono) auto
  with f2 have H: "float_add acc ?x \<le> ?b ^ Suc k * (E + ?q)"
    by (simp add: float_add_def mult.assoc)
  have k': "3 \<le> Suc k" using \<open>3 \<le> k\<close> by simp
  from Cons.IH [OF cs k' Eq L H] show ?case
    by (simp add: add.assoc add_divide_distrib)
qed

lemma quality_of_bounds:
  assumes "A \<noteq> []" and "\<forall>c \<in> set cv. 0 \<le> c"
  shows "(1 - eps) ^ (length cv + 3) * (of_int (sum_list cv) / of_nat (length A))
           \<le> quality_of A cv \<and>
         quality_of A cv
           \<le> (1 + eps) ^ (length cv + 3) * (of_int (sum_list cv) / of_nat (length A))"
proof -
  from assms(1) have n: "0 < length A" by simp
  show ?thesis
    using sum_fold_bounds [OF n assms(2), of 3 0 0] by (simp add: quality_of_def add.commute)
qed

lemma quality_of_nonneg:
  assumes "A \<noteq> []" and "\<forall>c \<in> set cv. 0 \<le> c"
  shows "0 \<le> quality_of A cv"
proof -
  from assms(2) have "0 \<le> sum_list cv" by (induction cv) auto
  then have "(0::rat) \<le> (1 - eps) ^ (length cv + 3) * (of_int (sum_list cv) / of_nat (length A))"
    using eps_bounds by simp
  with quality_of_bounds [OF assms] show ?thesis by linarith
qed

section \<open>Properties of the loops\<close>

lemma sum_list_incr: "i < length cv \<Longrightarrow> sum_list (cv[i := cv ! i + 1]) = sum_list cv + (1::int)"
proof (induction cv arbitrary: i)
  case Nil
  then show ?case by simp
next
  case (Cons c cv)
  then show ?case by (cases i) simp_all
qed

lemma count_word_loop:
  "n + length ws \<le> length cv \<Longrightarrow>
   length (fold (\<lambda>(i, w) cv. if w = word then cv[i := cv ! i + 1] else cv) (enumerate n ws) cv)
     = length cv \<and>
   sum_list (fold (\<lambda>(i, w) cv. if w = word then cv[i := cv ! i + 1] else cv) (enumerate n ws) cv)
     = sum_list cv + int (matches ws word)"
proof (induction ws arbitrary: n cv)
  case Nil
  show ?case by (simp add: matches_def)
next
  case (Cons w ws)
  let ?cv = "if w = word then cv[n := cv ! n + 1] else cv"
  from Cons.prems have "Suc n + length ws \<le> length ?cv" by simp
  from Cons.IH [OF this] Cons.prems show ?case
    by (simp add: matches_def sum_list_incr)
qed

lemma incr_nonneg:
  "i < length cv \<Longrightarrow> list_all (\<lambda>c. 0 \<le> c) cv \<Longrightarrow> list_all (\<lambda>c. (0::int) \<le> c) (cv[i := cv ! i + 1])"
  by (auto simp: list_all_length nth_list_update)

lemma count_word_loop_nonneg:
  "n + length ws \<le> length cv \<Longrightarrow> list_all (\<lambda>c. (0::int) \<le> c) cv \<Longrightarrow>
   list_all (\<lambda>c. 0 \<le> c)
     (fold (\<lambda>(i, w) cv. if w = word then cv[i := cv ! i + 1] else cv) (enumerate n ws) cv)"
proof (induction ws arbitrary: n cv)
  case Nil
  then show ?case by simp
next
  case (Cons w ws)
  let ?cv = "if w = word then cv[n := cv ! n + 1] else cv"
  from Cons.prems have 1: "Suc n + length ws \<le> length ?cv" by simp
  from Cons.prems have "n < length cv" by simp
  from incr_nonneg [OF this] Cons.prems have 2: "list_all (\<lambda>c. 0 \<le> c) ?cv" by simp
  from Cons.IH [OF 1 2] show ?case by simp
qed

lemma count_word_nonneg:
  "length cv = length words \<Longrightarrow> list_all (\<lambda>c. 0 \<le> c) cv \<Longrightarrow>
   list_all (\<lambda>c. 0 \<le> c) (count_word words word cv)"
  unfolding count_word_def using count_word_loop_nonneg [of 0 words cv word] by simp

lemma count_word_length: "length cv = length words \<Longrightarrow> length (count_word words word cv) = length cv"
  unfolding count_word_def using count_word_loop [of 0 words cv word] by simp

lemma count_word_sum:
  "length cv = length words \<Longrightarrow> sum_list (count_word words word cv) = sum_list cv + int (matches words word)"
  unfolding count_word_def using count_word_loop [of 0 words cv word] by simp

lemma count_fold_sum:
  "length cv = length words \<Longrightarrow>
   length (fold (count_word words) tokens cv) = length words \<and>
   sum_list (fold (count_word words) tokens cv) = sum_list cv + match_count words tokens"
proof (induction tokens arbitrary: cv)
  case Nil
  then show ?case by (simp add: match_count_def)
next
  case (Cons tok tokens)
  from Cons.prems have "length (count_word words tok cv) = length words"
    by (simp add: count_word_length)
  from Cons.IH [OF this] Cons.prems show ?case
    by (simp add: count_word_sum match_count_def)
qed

lemma count_tokens_length: "length (count_tokens words tokens) = length words"
  unfolding count_tokens_def using count_fold_sum [of "replicate (length words) 0" words tokens] by simp

lemma count_fold_nonneg:
  "length cv = length words \<Longrightarrow> list_all (\<lambda>c. 0 \<le> c) cv \<Longrightarrow>
   list_all (\<lambda>c. 0 \<le> c) (fold (count_word words) tokens cv)"
proof (induction tokens arbitrary: cv)
  case Nil
  then show ?case by simp
next
  case (Cons tok tokens)
  from Cons.prems have 1: "length (count_word words tok cv) = length words"
    by (simp add: count_word_length)
  from Cons.prems have 2: "list_all (\<lambda>c. 0 \<le> c) (count_word words tok cv)"
    by (simp add: count_word_nonneg)
  from Cons.IH [OF 1 2] show ?case by simp
qed

lemma count_tokens_nonneg: "\<forall>c \<in> set (count_tokens words tokens). 0 \<le> c"
  unfolding count_tokens_def
  using count_fold_nonneg [of "replicate (length words) 0" words tokens]
  by (simp add: list_all_iff)

lemma count_tokens_sum: "sum_list (count_tokens words tokens) = match_count words tokens"
  unfolding count_tokens_def using count_fold_sum [of "replicate (length words) 0" words tokens]
  by (simp add: sum_list_replicate)

lemma bump_matches_eq:
  "slot < length cv \<Longrightarrow> bump_matches slot ws cur cv = cv[slot := cv ! slot + int (matches ws cur)]"
  unfolding bump_matches_def
proof (induction ws arbitrary: cv)
  case Nil
  then show ?case by (simp add: matches_def)
next
  case (Cons w ws)
  then show ?case by (simp add: matches_def add.assoc)
qed

lemma classify_fold:
  "fold (\<lambda>current_word cv. bump_matches 2 G current_word
           (bump_matches 1 N current_word (bump_matches 0 P current_word cv))) tokens [a, b, c]
   = [a + match_count P tokens, b + match_count N tokens, c + match_count G tokens]"
proof (induction tokens arbitrary: a b c)
  case Nil
  show ?case by (simp add: match_count_def)
next
  case (Cons tok tokens)
  have step: "bump_matches 2 G tok (bump_matches 1 N tok (bump_matches 0 P tok [a, b, c]))
      = [a + int (matches P tok), b + int (matches N tok), c + int (matches G tok)]"
    by (simp add: bump_matches_eq)
  have mc: "match_count ws (tok # tokens) = int (matches ws tok) + match_count ws tokens" for ws
    by (simp add: match_count_def)
  show ?case
    unfolding fold_Cons comp_apply step Cons.IH mc by (simp add: add.assoc)
qed

lemma classify_tokens_eq:
  "classify_tokens P N G tokens = [match_count P tokens, match_count N tokens, match_count G tokens]"
  unfolding classify_tokens_def using classify_fold [of G N P tokens 0 0 0] by simp

lemma match_count_nonneg: "0 \<le> match_count ws tokens"
  unfolding match_count_def by (induction tokens) simp_all

lemma matches_distinct: "distinct ws \<Longrightarrow> matches ws tok = (if tok \<in> set ws then 1 else 0)"
  unfolding matches_def by (induction ws) auto

lemma match_count_le:
  "distinct ws \<Longrightarrow> match_count ws tokens \<le> int (length tokens)"
  unfolding match_count_def by (induction tokens) (simp_all add: matches_distinct)

lemma match_count_eq_iff:
  "distinct ws \<Longrightarrow>
   match_count ws tokens = int (length tokens) \<longleftrightarrow> (\<forall>tok \<in> set tokens. matches ws tok = 1)"
proof (induction tokens)
  case Nil
  show ?case by (simp add: match_count_def)
next
  case (Cons tok tokens)
  have le: "match_count ws tokens \<le> int (length tokens)"
    using Cons.prems by (rule match_count_le)
  have mc: "match_count ws (tok # tokens) = int (matches ws tok) + match_count ws tokens"
    by (simp add: match_count_def)
  from Cons.prems have m: "matches ws tok = (if tok \<in> set ws then 1 else 0)"
    by (rule matches_distinct)
  show ?case using Cons.IH [OF Cons.prems] le m unfolding mc by (cases "tok \<in> set ws") auto
qed

lemma get_count_vector_valid:
  "valid_words U W \<Longrightarrow> get_count_vector U t W = Inr (count_tokens W (py_split t))"
  by (simp add: get_count_vector_def valid_words_def)

lemma get_classification_vector_valid:
  "valid_words U P \<Longrightarrow> valid_words U N \<Longrightarrow> valid_words U G \<Longrightarrow>
   get_classification_vector U P N G t =
     Inr [match_count P (py_split t), match_count N (py_split t), match_count G (py_split t)]"
  by (simp add: get_classification_vector_def valid_words_def classify_tokens_eq)

lemma process_tweet_valid:
  "valid_input U tweet P N G A \<Longrightarrow>
   process_tweet U tweet P N G A =
     Inr (match_count P (py_split tweet) - match_count N (py_split tweet),
          quality_of A (count_tokens A (py_split tweet)))"
  unfolding valid_input_def
  by (simp add: process_tweet_def get_count_vector_valid get_classification_vector_valid
      valid_words_def dot_def)

text \<open>The floats of the scenarios.\<close>

lemma fl_zero: "fl 0 = 0"
  by (simp add: fl_def)

lemma fl_small_ints: "fl 1 = 1" "fl 2 = 2" "fl 4 = 4"
  by (subst fl_eval [where e = 0], simp_all add: round_half_even_def Let_def)
     (subst fl_eval [where e = 1], simp_all add: round_half_even_def Let_def floor_rat_numeral,
      subst fl_eval [where e = 2], simp_all add: round_half_even_def Let_def floor_rat_numeral)

lemma fl_thirds:
  "fl (6004799503160661 / 18014398509481984) = 6004799503160661 / 18014398509481984"
  "fl (6004799503160661 / 9007199254740992) = 6004799503160661 / 9007199254740992"
  "fl (6004799503160661 / 4503599627370496) = 6004799503160661 / 4503599627370496"
  "fl (18014398509481983 / 18014398509481984) = 1"
  by (subst fl_eval [where e = "- 2"], simp_all add: round_half_even_def Let_def floor_rat_numeral)
     (subst fl_eval [where e = "- 1"], simp_all add: round_half_even_def Let_def floor_rat_numeral,
      subst fl_eval [where e = 0], simp_all add: round_half_even_def Let_def floor_rat_numeral,
      subst fl_eval [where e = "- 1"], simp_all add: round_half_even_def Let_def floor_rat_numeral)

lemma fl_tenths:
  "fl (3602879701896397 / 36028797018963968) = 3602879701896397 / 36028797018963968"
  "fl (3602879701896397 / 18014398509481984) = 3602879701896397 / 18014398509481984"
  "fl (10808639105689191 / 36028797018963968) = 1351079888211149 / 4503599627370496"
  "fl (1351079888211149 / 4503599627370496) = 1351079888211149 / 4503599627370496"
  "fl (3 / 10) = 5404319552844595 / 18014398509481984"
  by (subst fl_eval [where e = "- 4"], simp_all add: round_half_even_def Let_def floor_rat_numeral)
     (subst fl_eval [where e = "- 3"], simp_all add: round_half_even_def Let_def floor_rat_numeral,
      subst fl_eval [where e = "- 2"], simp_all add: round_half_even_def Let_def floor_rat_numeral,
      subst fl_eval [where e = "- 2"], simp_all add: round_half_even_def Let_def floor_rat_numeral,
      subst fl_eval [where e = "- 2"], simp_all add: round_half_even_def Let_def floor_rat_numeral)

lemmas float_defs = quality_of_def int_truediv_def float_mul_def float_add_def float_of_int_def

lemma quality_scenario_1:
  "quality_of [ustr ''bueno'', ustr ''malo'', ustr ''dia''] [0, 2, 1] = 1"
  by (simp add: float_defs fl_zero fl_small_ints fl_third fl_thirds)

lemma quality_four_malo:
  "quality_of [ustr ''bueno'', ustr ''malo'', ustr ''dia''] [0, 4, 0]
     = 6004799503160661 / 4503599627370496"
  by (simp add: float_defs fl_zero fl_small_ints fl_third fl_thirds)

lemma quality_three_of_ten:
  "quality_of [ustr ''a'', ustr ''b'', ustr ''c'', ustr ''d'', ustr ''e'', ustr ''f'', ustr ''g'',
      ustr ''h'', ustr ''i'', ustr ''j''] [1, 1, 1, 0, 0, 0, 0, 0, 0, 0]
     = 1351079888211149 / 4503599627370496"
  by (simp add: float_defs fl_zero fl_small_ints fl_tenth fl_tenths)

lemma valid_scenario:
  "valid_input ucd_excerpt (ustr ''malo dia malo'') [ustr ''bueno''] [ustr ''malo'']
     [ustr ''dia''] [ustr ''bueno'', ustr ''malo'', ustr ''dia'']"
  using excerpt_words by (simp add: valid_input_def valid_words_def ustr_def)

lemma valid_lexicon:
  "valid_words ucd_excerpt [ustr ''malo'', ustr ''dia'']" "distinct [ustr ''malo'', ustr ''dia'']"
  "valid_words ucd_excerpt [ustr ''bueno'']" "valid_words ucd_excerpt [ustr ''malo'']"
  "valid_words ucd_excerpt [ustr ''dia'']"
  using excerpt_words by (simp_all add: valid_words_def ustr_def)

section \<open>Properties of the schema check\<close>

lemma schema_lists: "set schema_properties = category_keys" "set schema_required = category_keys"
  by (simp_all add: schema_properties_def schema_required_def category_keys_def)

lemma validate_iff: "validate words \<longleftrightarrow> \<not> schema_violation words"
proof (cases words)
  case (JObject kvs)
  have "validate (JObject kvs) \<longleftrightarrow>
      (\<forall>k \<in> category_keys. case map_of kvs k of None \<Rightarrow> True | Some v \<Rightarrow> is_array_of_strings v) \<and>
      (\<forall>k \<in> category_keys. map_of kvs k \<noteq> None) \<and>
      (\<forall>k \<in> set (map fst kvs). k \<in> category_keys)"
    by (simp add: list_all_iff schema_lists)
  also have "\<dots> \<longleftrightarrow> \<not> schema_violation (JObject kvs)"
    unfolding schema_violation_def keys_of.simps value_of.simps
    by (auto simp: map_of_eq_None_iff split: option.splits)
  finally show ?thesis using JObject by simp
qed (auto simp: schema_violation_def category_keys_def)

section \<open>The claims\<close>

subsection \<open>C1\<close>

text \<open>
  C1 (scenario 1).  With Unicode tables that are the standard ones on ASCII, the lexicon
  payload with positive \<open>bueno\<close>, negative \<open>malo\<close> and neutral \<open>dia\<close> loads as these
  three lists and \<open>all_words = [bueno, malo, dia]\<close>; sanitizing the tweet
  \<open>hoy es un buen dia, pero el clima esta malo malo\<close> yields
  \<open>hoy es un buen dia pero el clima esta malo malo\<close>; the classification vector of the
  sanitized tweet is \<open>[0, 1, 2]\<close>; \<open>process_tweet\<close> returns the score \<open>-2\<close> and the
  quality index \<open>3/3 = 1\<close>.
\<close>

theorem scenario_1:
  assumes "ascii_conformant U"
  shows "load_words U (JObject
           [(ustr ''positive'', JArray [JString (ustr ''bueno'')]),
            (ustr ''negative'', JArray [JString (ustr ''malo'')]),
            (ustr ''neutral'', JArray [JString (ustr ''dia'')])])
         = Inr ([ustr ''bueno''], [ustr ''malo''], [ustr ''dia''],
                [ustr ''bueno'', ustr ''malo'', ustr ''dia'']) \<and>
       sanitize_text U (ustr ''hoy es un buen dia, pero el clima esta malo malo'')
         = ustr ''hoy es un buen dia pero el clima esta malo malo'' \<and>
       get_classification_vector U [ustr ''bueno''] [ustr ''dia''] [ustr ''malo'']
           (ustr ''hoy es un buen dia pero el clima esta malo malo'')
         = Inr [0, 1, 2] \<and>
       process_tweet U (ustr ''hoy es un buen dia pero el clima esta malo malo'')
           [ustr ''bueno''] [ustr ''malo''] [ustr ''dia'']
           [ustr ''bueno'', ustr ''malo'', ustr ''dia'']
         = Inr (- 2, 1)"
proof -
  note san = sanitize_text_ascii [OF assms] and alpha = isalpha_ascii [OF assms]
  have bueno: "sanitize_text U (ustr ''bueno'') = ustr ''bueno''"
    by (subst san) (simp_all add: eval_defs)
  have malo: "sanitize_text U (ustr ''malo'') = ustr ''malo''"
    by (subst san) (simp_all add: eval_defs)
  have dia: "sanitize_text U (ustr ''dia'') = ustr ''dia''"
    by (subst san) (simp_all add: eval_defs)
  have lex: "load_words U (JObject
           [(ustr ''positive'', JArray [JString (ustr ''bueno'')]),
            (ustr ''negative'', JArray [JString (ustr ''malo'')]),
            (ustr ''neutral'', JArray [JString (ustr ''dia'')])])
         = Inr ([ustr ''bueno''], [ustr ''malo''], [ustr ''dia''],
                [ustr ''bueno'', ustr ''malo'', ustr ''dia''])"
    unfolding load_words_def
    by (simp add: bueno malo dia schema_properties_def schema_required_def)
       (simp add: ustr_def Let_def)
  have tweet: "sanitize_text U (ustr ''hoy es un buen dia, pero el clima esta malo malo'')
         = ustr ''hoy es un buen dia pero el clima esta malo malo''"
    by (subst san) (simp_all add: eval_defs)
  have a: "isalpha U (ustr ''bueno'')" "isalpha U (ustr ''malo'')" "isalpha U (ustr ''dia'')"
    by (simp_all add: alpha eval_defs)
  have toks: "py_split (ustr ''hoy es un buen dia pero el clima esta malo malo'') =
      [ustr ''hoy'', ustr ''es'', ustr ''un'', ustr ''buen'', ustr ''dia'', ustr ''pero'',
       ustr ''el'', ustr ''clima'', ustr ''esta'', ustr ''malo'', ustr ''malo'']"
    by (simp add: eval_defs)
  have cls: "get_classification_vector U [ustr ''bueno''] [ustr ''dia''] [ustr ''malo'']
           (ustr ''hoy es un buen dia pero el clima esta malo malo'') = Inr [0, 1, 2]"
    unfolding get_classification_vector_def toks
    using a by (simp add: classify_tokens_def bump_matches_def ustr_def)
  have cnt: "get_count_vector U (ustr ''hoy es un buen dia pero el clima esta malo malo'')
           [ustr ''bueno'', ustr ''malo'', ustr ''dia''] = Inr [0, 2, 1]"
    unfolding get_count_vector_def toks
    using a by (simp add: count_tokens_def count_word_def enumerate_eq_zip ustr_def)
  have nonempty: "ustr ''hoy es un buen dia pero el clima esta malo malo'' \<noteq> []"
    by (simp add: ustr_def)
  have prc: "process_tweet U (ustr ''hoy es un buen dia pero el clima esta malo malo'')
           [ustr ''bueno''] [ustr ''malo''] [ustr ''dia'']
           [ustr ''bueno'', ustr ''malo'', ustr ''dia''] = Inr (- 2, 1)"
    unfolding process_tweet_def cls cnt
    using a nonempty by (simp add: dot_def quality_scenario_1)
  from lex tweet cls prc show ?thesis by (intro conjI)
qed

theorem scenario_1_witness:
  "ascii_conformant ucd_excerpt \<and>
   process_tweet ucd_excerpt (ustr ''hoy es un buen dia pero el clima esta malo malo'')
     [ustr ''bueno''] [ustr ''malo''] [ustr ''dia'']
     [ustr ''bueno'', ustr ''malo'', ustr ''dia''] = Inr (- 2, 1)"
  using scenario_1 [OF ucd_excerpt_conformant] ucd_excerpt_conformant by blast

subsection \<open>C2\<close>

text \<open>
  C2.  For every valid input (a non-empty tweet, non-empty lists of alphabetic words)
  \<open>process_tweet\<close> returns, and its score is slot 0 of the classification vector minus
  slot 2: the matches of the positive words minus the matches of the negative words.
  The neutral words do not affect it: with any other valid neutral list the score is
  the same.
\<close>

theorem score_is_positive_minus_negative:
  assumes "valid_input U tweet P N G A"
  shows "\<exists>cv q. get_classification_vector U P G N tweet = Inr cv \<and>
           process_tweet U tweet P N G A = Inr (cv ! 0 - cv ! 2, q) \<and>
           cv ! 0 = match_count P (py_split tweet) \<and>
           cv ! 2 = match_count N (py_split tweet) \<and>
           (\<forall>G'. valid_words U G' \<longrightarrow>
              (\<exists>q'. process_tweet U tweet P N G' A = Inr (cv ! 0 - cv ! 2, q')))"
proof -
  from assms have v: "valid_words U P" "valid_words U N" "valid_words U G"
    by (simp_all add: valid_input_def)
  have other: "valid_input U tweet P N G' A" if "valid_words U G'" for G'
    using assms that by (simp add: valid_input_def)
  show ?thesis
    using v assms other
    by (simp add: get_classification_vector_valid process_tweet_valid)
qed

theorem score_is_positive_minus_negative_witness:
  "valid_input ucd_excerpt (ustr ''malo dia malo'') [ustr ''bueno''] [ustr ''malo'']
     [ustr ''dia''] [ustr ''bueno'', ustr ''malo'', ustr ''dia''] \<and>
   (\<exists>cv q. get_classification_vector ucd_excerpt [ustr ''bueno''] [ustr ''dia''] [ustr ''malo'']
        (ustr ''malo dia malo'') = Inr cv \<and>
      process_tweet ucd_excerpt (ustr ''malo dia malo'') [ustr ''bueno''] [ustr ''malo'']
        [ustr ''dia''] [ustr ''bueno'', ustr ''malo'', ustr ''dia''] = Inr (cv ! 0 - cv ! 2, q))"
  using score_is_positive_minus_negative [OF valid_scenario] valid_scenario by blast

subsection \<open>C3\<close>

text \<open>
  C3.  For every valid input \<open>process_tweet\<close> returns, and its quality index is the
  float sum, from the left, of the counts of the tweet against \<open>all_words\<close>, each
  multiplied by the float \<open>1/len(all_words)\<close>.  It is the sum of the count vector divided
  by the length of \<open>all_words\<close> up to rounding: it lies between \<open>(1 - eps)^(len + 3)\<close> and
  \<open>(1 + eps)^(len + 3)\<close> times that quotient, where \<open>eps = 2^-53\<close>.  It is a
  non-negative rational and is not bounded by 1: the tweet \<open>malo malo malo malo\<close> against
  the lexicon of scenario 1 has the quality index \<open>1.3333333333333333\<close>.  The quotient
  itself is not always returned, as \<open>quality_is_sum_over_length_counterexample\<close> shows.
\<close>

theorem quality_is_rounded_sum_over_length:
  assumes "valid_input U tweet P N G A"
  shows "(\<exists>cv score q. get_count_vector U tweet A = Inr cv \<and>
           process_tweet U tweet P N G A = Inr (score, q) \<and>
           q = quality_of A cv \<and> 0 \<le> q \<and>
           (1 - eps) ^ (length A + 3) * (of_int (sum_list cv) / of_nat (length A)) \<le> q \<and>
           q \<le> (1 + eps) ^ (length A + 3) * (of_int (sum_list cv) / of_nat (length A))) \<and>
         (ascii_conformant U \<longrightarrow>
            process_tweet U (ustr ''malo malo malo malo'') [ustr ''bueno''] [ustr ''malo'']
              [ustr ''dia''] [ustr ''bueno'', ustr ''malo'', ustr ''dia'']
            = Inr (- 4, 6004799503160661 / 4503599627370496))"
proof (intro conjI impI)
  let ?cv = "count_tokens A (py_split tweet)"
  from assms have A: "valid_words U A" by (simp add: valid_input_def)
  then have ne: "A \<noteq> []" by (simp add: valid_words_def)
  have nn: "\<forall>c \<in> set ?cv. 0 \<le> c" by (rule count_tokens_nonneg)
  have len: "length ?cv = length A" by (rule count_tokens_length)
  from quality_of_bounds [OF ne nn] quality_of_nonneg [OF ne nn] A assms
  show "\<exists>cv score q. get_count_vector U tweet A = Inr cv \<and>
           process_tweet U tweet P N G A = Inr (score, q) \<and>
           q = quality_of A cv \<and> 0 \<le> q \<and>
           (1 - eps) ^ (length A + 3) * (of_int (sum_list cv) / of_nat (length A)) \<le> q \<and>
           q \<le> (1 + eps) ^ (length A + 3) * (of_int (sum_list cv) / of_nat (length A))"
    by (simp add: get_count_vector_valid process_tweet_valid len)
next
  assume c: "ascii_conformant U"
  have a: "isalpha U (ustr ''bueno'')" "isalpha U (ustr ''malo'')" "isalpha U (ustr ''dia'')"
    by (simp_all add: isalpha_ascii [OF c] eval_defs)
  have ne: "ustr ''malo malo malo malo'' \<noteq> []" by (simp add: ustr_def)
  have v: "valid_input U (ustr ''malo malo malo malo'') [ustr ''bueno''] [ustr ''malo'']
      [ustr ''dia''] [ustr ''bueno'', ustr ''malo'', ustr ''dia'']"
    using a ne by (simp add: valid_input_def valid_words_def)
  have toks: "py_split (ustr ''malo malo malo malo'') =
      [ustr ''malo'', ustr ''malo'', ustr ''malo'', ustr ''malo'']"
    by (simp add: eval_defs)
  have cnt: "count_tokens [ustr ''bueno'', ustr ''malo'', ustr ''dia'']
      [ustr ''malo'', ustr ''malo'', ustr ''malo'', ustr ''malo''] = [0, 4, 0]"
    by (simp add: count_tokens_def count_word_def enumerate_eq_zip ustr_def)
  have sc: "match_count [ustr ''bueno'']
        [ustr ''malo'', ustr ''malo'', ustr ''malo'', ustr ''malo''] -
      match_count [ustr ''malo''] [ustr ''malo'', ustr ''malo'', ustr ''malo'', ustr ''malo'']
      = - 4"
    by (simp add: match_count_def matches_def ustr_def)
  show "process_tweet U (ustr ''malo malo malo malo'') [ustr ''bueno''] [ustr ''malo'']
      [ustr ''dia''] [ustr ''bueno'', ustr ''malo'', ustr ''dia'']
      = Inr (- 4, 6004799503160661 / 4503599627370496)"
    unfolding process_tweet_valid [OF v] toks cnt sc quality_four_malo ..
qed

theorem quality_is_rounded_sum_over_length_witness:
  "valid_input ucd_excerpt (ustr ''malo dia malo'') [ustr ''bueno''] [ustr ''malo'']
     [ustr ''dia''] [ustr ''bueno'', ustr ''malo'', ustr ''dia''] \<and>
   ascii_conformant ucd_excerpt \<and>
   (\<exists>cv score q. get_count_vector ucd_excerpt (ustr ''malo dia malo'')
        [ustr ''bueno'', ustr ''malo'', ustr ''dia''] = Inr cv \<and>
      process_tweet ucd_excerpt (ustr ''malo dia malo'') [ustr ''bueno''] [ustr ''malo'']
        [ustr ''dia''] [ustr ''bueno'', ustr ''malo'', ustr ''dia''] = Inr (score, q) \<and>
      0 \<le> q \<and>
      q \<le> (1 + eps) ^ (length [ustr ''bueno'', ustr ''malo'', ustr ''dia''] + 3) *
            (of_int (sum_list cv) /
             of_nat (length [ustr ''bueno'', ustr ''malo'', ustr ''dia'']))) \<and>
   process_tweet ucd_excerpt (ustr ''malo malo malo malo'') [ustr ''bueno''] [ustr ''malo'']
     [ustr ''dia''] [ustr ''bueno'', ustr ''malo'', ustr ''dia'']
     = Inr (- 4, 6004799503160661 / 4503599627370496)"
  using quality_is_rounded_sum_over_length [OF valid_scenario] valid_scenario
    ucd_excerpt_conformant
  by blast

theorem quality_is_sum_over_length_counterexample:
  "valid_input ucd_excerpt (ustr ''a b c'') [ustr ''a''] [ustr ''b''] [ustr ''c'']
     [ustr ''a'', ustr ''b'', ustr ''c'', ustr ''d'', ustr ''e'', ustr ''f'', ustr ''g'',
      ustr ''h'', ustr ''i'', ustr ''j''] \<and>
   get_count_vector ucd_excerpt (ustr ''a b c'')
     [ustr ''a'', ustr ''b'', ustr ''c'', ustr ''d'', ustr ''e'', ustr ''f'', ustr ''g'',
      ustr ''h'', ustr ''i'', ustr ''j''] = Inr [1, 1, 1, 0, 0, 0, 0, 0, 0, 0] \<and>
   process_tweet ucd_excerpt (ustr ''a b c'') [ustr ''a''] [ustr ''b''] [ustr ''c'']
     [ustr ''a'', ustr ''b'', ustr ''c'', ustr ''d'', ustr ''e'', ustr ''f'', ustr ''g'',
      ustr ''h'', ustr ''i'', ustr ''j'']
     = Inr (0, 1351079888211149 / 4503599627370496) \<and>
   (1351079888211149 / 4503599627370496 :: rat)
     \<noteq> of_int (sum_list [1, 1, 1, 0, 0, 0, 0, 0, 0, 0]) / of_nat 10 \<and>
   (1351079888211149 / 4503599627370496 :: rat) \<noteq> fl (3 / 10)"
proof -
  let ?A = "[ustr ''a'', ustr ''b'', ustr ''c'', ustr ''d'', ustr ''e'', ustr ''f'', ustr ''g'',
      ustr ''h'', ustr ''i'', ustr ''j'']"
  have al: "list_all (isalpha ucd_excerpt) ?A"
    by (simp add: ucd_defs eval_defs)
  have ne: "ustr ''a b c'' \<noteq> []" by (simp add: ustr_def)
  have v: "valid_input ucd_excerpt (ustr ''a b c'') [ustr ''a''] [ustr ''b''] [ustr ''c''] ?A"
    using al ne by (simp add: valid_input_def valid_words_def)
  have toks: "py_split (ustr ''a b c'') = [ustr ''a'', ustr ''b'', ustr ''c'']"
    by (simp add: eval_defs)
  have cnt: "count_tokens ?A [ustr ''a'', ustr ''b'', ustr ''c''] = [1, 1, 1, 0, 0, 0, 0, 0, 0, 0]"
    by (simp add: count_tokens_def count_word_def enumerate_eq_zip ustr_def)
  have sc: "match_count [ustr ''a''] [ustr ''a'', ustr ''b'', ustr ''c''] -
      match_count [ustr ''b''] [ustr ''a'', ustr ''b'', ustr ''c''] = 0"
    by (simp add: match_count_def matches_def ustr_def)
  from v have vA: "valid_words ucd_excerpt ?A" by (simp add: valid_input_def)
  have 1: "get_count_vector ucd_excerpt (ustr ''a b c'') ?A = Inr [1, 1, 1, 0, 0, 0, 0, 0, 0, 0]"
    unfolding get_count_vector_valid [OF vA] toks cnt ..
  have 2: "process_tweet ucd_excerpt (ustr ''a b c'') [ustr ''a''] [ustr ''b''] [ustr ''c''] ?A
     = Inr (0, 1351079888211149 / 4503599627370496)"
    unfolding process_tweet_valid [OF v] toks cnt sc quality_three_of_ten ..
  have 3: "(1351079888211149 / 4503599627370496 :: rat)
     \<noteq> of_int (sum_list [1, 1, 1, 0, 0, 0, 0, 0, 0, 0]) / of_nat 10"
    by simp
  have 4: "(1351079888211149 / 4503599627370496 :: rat) \<noteq> fl (3 / 10)"
    by (simp add: fl_tenths)
  from v 1 2 3 4 show ?thesis by (intro conjI)
qed

subsection \<open>C4\<close>

text \<open>
  C4.  For every text \<open>t\<close> and every non-empty list \<open>W\<close> of pairwise distinct alphabetic
  words, \<open>get_count_vector\<close> returns, the sum of the count vector is at most the number
  of white-space tokens of \<open>t\<close>, and the two are equal if and only if every token of \<open>t\<close>
  matches a word of \<open>W\<close> exactly once.  The words must be distinct: a word listed twice
  counts every matching token twice, as \<open>count_conservation_counterexample\<close> shows.
\<close>

theorem count_conservation:
  assumes "valid_words U W" and "distinct W"
  shows "\<exists>cv. get_count_vector U t W = Inr cv \<and>
           sum_list cv \<le> int (length (py_split t)) \<and>
           (sum_list cv = int (length (py_split t)) \<longleftrightarrow>
              (\<forall>tok \<in> set (py_split t). matches W tok = 1))"
  using assms
  by (simp add: get_count_vector_valid count_tokens_sum match_count_le match_count_eq_iff)

theorem count_conservation_witness:
  "valid_words ucd_excerpt [ustr ''malo'', ustr ''dia''] \<and>
   distinct [ustr ''malo'', ustr ''dia''] \<and>
   (\<exists>cv. get_count_vector ucd_excerpt (ustr ''malo dia malo'') [ustr ''malo'', ustr ''dia'']
        = Inr cv \<and>
      sum_list cv \<le> int (length (py_split (ustr ''malo dia malo''))))"
  using count_conservation [OF valid_lexicon(1,2), of "ustr ''malo dia malo''"] valid_lexicon(1,2)
  by blast

theorem count_conservation_counterexample:
  "valid_words ucd_excerpt [ustr ''a'', ustr ''a''] \<and>
   get_count_vector ucd_excerpt (ustr ''a'') [ustr ''a'', ustr ''a''] = Inr [1, 1] \<and>
   py_split (ustr ''a'') = [ustr ''a''] \<and>
   \<not> sum_list [1, 1] \<le> int (length (py_split (ustr ''a'')))"
proof -
  have t: "py_split (ustr ''a'') = [ustr ''a'']" by (simp add: eval_defs)
  have v: "valid_words ucd_excerpt [ustr ''a'', ustr ''a'']"
    using excerpt_words by (simp add: valid_words_def)
  have c: "get_count_vector ucd_excerpt (ustr ''a'') [ustr ''a'', ustr ''a''] = Inr [1, 1]"
    unfolding get_count_vector_def t using excerpt_words
    by (simp add: count_tokens_def count_word_def enumerate_eq_zip)
  show ?thesis unfolding t using v c by simp
qed

subsection \<open>C5\<close>

text \<open>
  C5.  With Unicode tables that are the standard ones on ASCII, \<open>sanitize_text\<close> is
  idempotent: sanitizing a sanitized string changes nothing, for every string.
\<close>

theorem sanitize_text_idempotent:
  assumes "ascii_conformant U"
  shows "sanitize_text U (sanitize_text U s) = sanitize_text U s"
  using assms sanitize_text_normal by (rule sanitize_text_fixes_normal)

theorem sanitize_text_idempotent_witness:
  "ascii_conformant ucd_excerpt \<and>
   sanitize_text ucd_excerpt (sanitize_text ucd_excerpt (ustr ''  Caf'' @ [233] @ ustr '', 1-2 !''))
     = sanitize_text ucd_excerpt (ustr ''  Caf'' @ [233] @ ustr '', 1-2 !'')"
  using sanitize_text_idempotent [OF ucd_excerpt_conformant] ucd_excerpt_conformant by blast

subsection \<open>C6\<close>

text \<open>
  C6.  For every string \<open>s\<close>, every character of \<open>sanitize_text s\<close> is a lowercase
  ASCII letter, an ASCII digit or a space; the result neither starts nor ends with a
  space and has no two spaces in a row; and it is empty when the NFKD form of the
  trimmed, lower-cased \<open>s\<close> has no ASCII letter or digit.  A string without any
  alphanumeric character can still have a form with one: the trade mark sign alone is
  sanitized to \<open>tm\<close>, as \<open>sanitize_text_shape_counterexample\<close> shows.
\<close>

theorem sanitize_text_shape:
  "(\<forall>c \<in> set (sanitize_text U s). ascii_lower c \<or> ascii_digit c \<or> c = space) \<and>
   (\<nexists>xs. sanitize_text U s = space # xs) \<and>
   (\<nexists>xs. sanitize_text U s = xs @ [space]) \<and>
   (\<nexists>xs ys. sanitize_text U s = xs @ [space, space] @ ys) \<and>
   ((\<forall>c \<in> set (normalize_NFKD U (str_lower U (py_strip s))). \<not> ascii_alnum c) \<longrightarrow>
      sanitize_text U s = [])"
proof -
  have n: "normal_text (sanitize_text U s)" by (rule sanitize_text_normal)
  then have 1: "\<forall>c \<in> set (sanitize_text U s). ascii_lower c \<or> ascii_digit c \<or> c = space"
    by (simp add: normal_text_def)
  from n have 2: "\<nexists>xs. sanitize_text U s = space # xs"
    by (auto simp: normal_text_def)
  from n have 3: "\<nexists>xs. sanitize_text U s = xs @ [space]"
    by (auto simp: normal_text_def)
  from n have 4: "\<nexists>xs ys. sanitize_text U s = xs @ [space, space] @ ys"
    by (auto simp: normal_text_def successively_append_iff)
  have "sanitize_text U s = [] \<longleftrightarrow>
      (\<forall>c \<in> set (encode_ascii_ignore (normalize_NFKD U (str_lower U (py_strip s)))). \<not> ascii_alnum c)"
    by (simp add: sanitize_text_eq py_replace_def slugify_Nil_iff)
  also have "\<dots> \<longleftrightarrow> (\<forall>c \<in> set (normalize_NFKD U (str_lower U (py_strip s))). \<not> ascii_alnum c)"
    by (auto simp: encode_ascii_ignore_def ascii_defs)
  finally show ?thesis using 1 2 3 4 by blast
qed

theorem sanitize_text_shape_witness:
  "sanitize_text ucd_excerpt (ustr ''  Caf'' @ [233] @ ustr '', 1-2 !'') = ustr ''cafe 1 2'' \<and>
   list_all (\<lambda>c. ascii_lower c \<or> ascii_digit c \<or> c = space) (ustr ''cafe 1 2'') \<and>
   sanitize_text ucd_excerpt (ustr '' ?! '') = []"
proof -
  have 1: "sanitize_text ucd_excerpt (ustr ''  Caf'' @ [233] @ ustr '', 1-2 !'') = ustr ''cafe 1 2''"
    by (simp add: sanitize_defs ucd_defs eval_defs)
  have "\<forall>c \<in> set (normalize_NFKD ucd_excerpt (str_lower ucd_excerpt (py_strip (ustr '' ?! '')))).
      \<not> ascii_alnum c"
    by (simp add: ucd_defs eval_defs)
  with sanitize_text_shape [of ucd_excerpt "ustr '' ?! ''"]
  have 2: "sanitize_text ucd_excerpt (ustr '' ?! '') = []" by blast
  from sanitize_text_shape [of ucd_excerpt "ustr ''  Caf'' @ [233] @ ustr '', 1-2 !''"]
  have "\<forall>c \<in> set (ustr ''cafe 1 2''). ascii_lower c \<or> ascii_digit c \<or> c = space"
    unfolding 1 by blast
  then have 3: "list_all (\<lambda>c. ascii_lower c \<or> ascii_digit c \<or> c = space) (ustr ''cafe 1 2'')"
    by (simp only: list_all_iff)
  from 1 2 3 show ?thesis by blast
qed

theorem sanitize_text_shape_counterexample:
  "\<not> isalnum_cp ucd_excerpt 8482 \<and> sanitize_text ucd_excerpt [8482] = ustr ''tm''"
  by (simp add: isalnum_cp_def sanitize_defs ucd_defs eval_defs)

subsection \<open>C7\<close>

text \<open>
  C7.  A payload in which, after sanitizing, the same word appears in two categories or
  twice in one is never loaded: \<open>load_words\<close> fails on it.  The failure is the
  duplicate-word error whenever the payload passes the schema and has no empty category;
  the schema check and the emptiness checks come first and raise their own errors, as
  \<open>load_words_rejects_duplicates_counterexample\<close> shows.
\<close>

theorem load_words_rejects_duplicates:
  assumes "\<not> distinct (sanitized_words U words)"
  shows "(\<exists>e. load_words U words = Inl e) \<and>
         (validate words \<and> getitem words (ustr ''positive'') \<noteq> [] \<and>
          getitem words (ustr ''negative'') \<noteq> [] \<and> getitem words (ustr ''neutral'') \<noteq> []
          \<longrightarrow> load_words U words = Inl DuplicateWordError)"
proof -
  from assms have "length (sanitized_words U words) \<noteq> card (set (sanitized_words U words))"
    using card_distinct by metis
  then show ?thesis
    by (simp add: load_words_def sanitized_words_def Let_def)
qed

theorem load_words_rejects_duplicates_witness:
  "\<not> distinct (sanitized_words ucd_excerpt (JObject
       [(ustr ''positive'', JArray [JString (ustr ''Caf'' @ [233])]),
        (ustr ''negative'', JArray [JString (ustr ''cafe'')]),
        (ustr ''neutral'', JArray [JString (ustr ''dia'')])])) \<and>
   load_words ucd_excerpt (JObject
       [(ustr ''positive'', JArray [JString (ustr ''Caf'' @ [233])]),
        (ustr ''negative'', JArray [JString (ustr ''cafe'')]),
        (ustr ''neutral'', JArray [JString (ustr ''dia'')])]) = Inl DuplicateWordError"
proof -
  let ?p = "JObject
       [(ustr ''positive'', JArray [JString (ustr ''Caf'' @ [233])]),
        (ustr ''negative'', JArray [JString (ustr ''cafe'')]),
        (ustr ''neutral'', JArray [JString (ustr ''dia'')])]"
  have g: "getitem ?p (ustr ''positive'') = [ustr ''Caf'' @ [233]]"
    "getitem ?p (ustr ''negative'') = [ustr ''cafe'']"
    "getitem ?p (ustr ''neutral'') = [ustr ''dia'']"
    by (simp_all add: ustr_def)
  have d: "\<not> distinct (sanitized_words ucd_excerpt ?p)"
    unfolding sanitized_words_def g by (simp add: excerpt_sanitized)
  have v: "validate ?p"
    by (simp add: schema_properties_def schema_required_def ustr_def)
  from load_words_rejects_duplicates [OF d] v g
  have "load_words ucd_excerpt ?p = Inl DuplicateWordError" by simp
  with d show ?thesis by blast
qed

theorem load_words_rejects_duplicates_counterexample:
  "\<not> distinct (sanitized_words ucd_excerpt (JObject
       [(ustr ''positive'', JArray [JString (ustr ''malo''), JString (ustr ''malo'')]),
        (ustr ''negative'', JArray []),
        (ustr ''neutral'', JArray [JString (ustr ''dia'')])])) \<and>
   load_words ucd_excerpt (JObject
       [(ustr ''positive'', JArray [JString (ustr ''malo''), JString (ustr ''malo'')]),
        (ustr ''negative'', JArray []),
        (ustr ''neutral'', JArray [JString (ustr ''dia'')])])
     = Inl (EmptyCategoryError NegativeWords)"
proof -
  let ?p = "JObject
       [(ustr ''positive'', JArray [JString (ustr ''malo''), JString (ustr ''malo'')]),
        (ustr ''negative'', JArray []),
        (ustr ''neutral'', JArray [JString (ustr ''dia'')])]"
  have g: "getitem ?p (ustr ''positive'') = [ustr ''malo'', ustr ''malo'']"
    "getitem ?p (ustr ''negative'') = []"
    "getitem ?p (ustr ''neutral'') = [ustr ''dia'']"
    by (simp_all add: ustr_def)
  have d: "\<not> distinct (sanitized_words ucd_excerpt ?p)"
    unfolding sanitized_words_def g by simp
  have v: "validate ?p"
    by (simp add: schema_properties_def schema_required_def ustr_def)
  have "load_words ucd_excerpt ?p = Inl (EmptyCategoryError NegativeWords)"
    unfolding load_words_def g using v by simp
  with d show ?thesis by blast
qed

subsection \<open>C8\<close>

text \<open>
  C8.  \<open>load_words\<close> fails with the schema error on every payload that misses one of the
  keys \<open>positive\<close>, \<open>negative\<close>, \<open>neutral\<close>, or has an additional top-level key, or
  holds under one of the three keys a value that is not an array of strings.
\<close>

theorem load_words_schema_error:
  assumes "schema_violation words"
  shows "load_words U words = Inl SchemaError"
  using assms by (simp add: load_words_def validate_iff)

theorem load_words_schema_error_witness:
  "schema_violation (JObject
       [(ustr ''positive'', JArray [JString (ustr ''bueno'')]),
        (ustr ''negative'', JArray [JString (ustr ''malo'')]),
        (ustr ''neutral'', JArray [JString (ustr ''dia'')]),
        (ustr ''extra'', JArray [])]) \<and>
   load_words ucd_excerpt (JObject
       [(ustr ''positive'', JArray [JString (ustr ''bueno'')]),
        (ustr ''negative'', JArray [JString (ustr ''malo'')]),
        (ustr ''neutral'', JArray [JString (ustr ''dia'')]),
        (ustr ''extra'', JArray [])]) = Inl SchemaError"
proof -
  let ?p = "JObject
       [(ustr ''positive'', JArray [JString (ustr ''bueno'')]),
        (ustr ''negative'', JArray [JString (ustr ''malo'')]),
        (ustr ''neutral'', JArray [JString (ustr ''dia'')]),
        (ustr ''extra'', JArray [])]"
  have "ustr ''extra'' \<in> keys_of ?p" by simp
  moreover have "ustr ''extra'' \<notin> category_keys" by (simp add: category_keys_def ustr_def)
  ultimately have s: "schema_violation ?p" unfolding schema_violation_def by blast
  from load_words_schema_error [OF s] s show ?thesis by blast
qed

subsection \<open>C9\<close>

text \<open>
  C9.  The invalid-word error is raised by \<open>process_tweet\<close>: on every call with a
  non-empty tweet and non-empty lists in which some word is not alphabetic it fails with
  that error, and consequently all words of a call that returns are alphabetic.
  \<open>load_words\<close> has no such check: the words it returns are sanitized texts (lowercase
  ASCII letters, digits, single inner spaces), and a payload holding \<open>abc123\<close> loads, as
  \<open>invalid_word_counterexample\<close> shows.
\<close>

theorem invalid_word_rejected_by_scorer:
  "(tweet \<noteq> [] \<and> P \<noteq> [] \<and> N \<noteq> [] \<and> G \<noteq> [] \<and> A \<noteq> [] \<and>
      (\<exists>w \<in> set (P @ N @ G @ A). \<not> isalpha U w)
      \<longrightarrow> (\<exists>k. process_tweet U tweet P N G A = Inl (InvalidWordError k))) \<and>
   (process_tweet U tweet P N G A = Inr r \<longrightarrow> (\<forall>w \<in> set (P @ N @ G @ A). isalpha U w)) \<and>
   (load_words U words = Inr (p, n, g, a) \<longrightarrow> (\<forall>w \<in> set a. normal_text w))"
proof (intro conjI impI)
  assume "tweet \<noteq> [] \<and> P \<noteq> [] \<and> N \<noteq> [] \<and> G \<noteq> [] \<and> A \<noteq> [] \<and>
      (\<exists>w \<in> set (P @ N @ G @ A). \<not> isalpha U w)"
  then show "\<exists>k. process_tweet U tweet P N G A = Inl (InvalidWordError k)"
    by (auto simp: process_tweet_def list_all_iff)
next
  assume "process_tweet U tweet P N G A = Inr r"
  then show "\<forall>w \<in> set (P @ N @ G @ A). isalpha U w"
    by (auto simp: process_tweet_def list_all_iff split: if_splits)
next
  assume "load_words U words = Inr (p, n, g, a)"
  then have "a = sanitized_words U words"
    by (auto simp: load_words_def sanitized_words_def Let_def split: if_splits)
  then show "\<forall>w \<in> set a. normal_text w"
    by (auto simp: sanitized_words_def sanitize_text_normal)
qed

theorem invalid_word_rejected_by_scorer_witness:
  "(\<exists>k. process_tweet ucd_excerpt (ustr ''malo dia'') [ustr ''abc123''] [ustr ''malo'']
      [ustr ''dia''] [ustr ''abc123'', ustr ''malo'', ustr ''dia''] = Inl (InvalidWordError k)) \<and>
   list_all (isalpha ucd_excerpt) ([ustr ''bueno''] @ [ustr ''malo''] @ [ustr ''dia''] @
      [ustr ''bueno'', ustr ''malo'', ustr ''dia'']) \<and>
   list_all normal_text [ustr ''abc123'', ustr ''malo'', ustr ''dia'']"
proof -
  have n: "\<not> isalpha ucd_excerpt (ustr ''abc123'')"
    by (simp add: ucd_defs eval_defs)
  have ne: "ustr ''malo dia'' \<noteq> []" by (simp add: ustr_def)
  have 1: "\<exists>k. process_tweet ucd_excerpt (ustr ''malo dia'') [ustr ''abc123''] [ustr ''malo'']
      [ustr ''dia''] [ustr ''abc123'', ustr ''malo'', ustr ''dia''] = Inl (InvalidWordError k)"
    using invalid_word_rejected_by_scorer [of "ustr ''malo dia''" "[ustr ''abc123'']"
        "[ustr ''malo'']" "[ustr ''dia'']" "[ustr ''abc123'', ustr ''malo'', ustr ''dia'']"
        ucd_excerpt] n ne
    by simp
  have "process_tweet ucd_excerpt (ustr ''malo dia malo'') [ustr ''bueno''] [ustr ''malo'']
     [ustr ''dia''] [ustr ''bueno'', ustr ''malo'', ustr ''dia'']
     = Inr (match_count [ustr ''bueno''] (py_split (ustr ''malo dia malo'')) -
            match_count [ustr ''malo''] (py_split (ustr ''malo dia malo'')),
          quality_of [ustr ''bueno'', ustr ''malo'', ustr ''dia'']
            (count_tokens [ustr ''bueno'', ustr ''malo'', ustr ''dia'']
               (py_split (ustr ''malo dia malo''))))"
    using valid_scenario by (rule process_tweet_valid)
  with invalid_word_rejected_by_scorer [of "ustr ''malo dia malo''" "[ustr ''bueno'']"
        "[ustr ''malo'']" "[ustr ''dia'']" "[ustr ''bueno'', ustr ''malo'', ustr ''dia'']"
        ucd_excerpt]
  have "\<forall>w \<in> set ([ustr ''bueno''] @ [ustr ''malo''] @ [ustr ''dia''] @
      [ustr ''bueno'', ustr ''malo'', ustr ''dia'']). isalpha ucd_excerpt w"
    by blast
  then have 2: "list_all (isalpha ucd_excerpt) ([ustr ''bueno''] @ [ustr ''malo''] @
      [ustr ''dia''] @ [ustr ''bueno'', ustr ''malo'', ustr ''dia''])"
    by (simp only: list_all_iff)
  let ?p = "JObject
       [(ustr ''positive'', JArray [JString (ustr ''abc123'')]),
        (ustr ''negative'', JArray [JString (ustr ''malo'')]),
        (ustr ''neutral'', JArray [JString (ustr ''dia'')])]"
  have g: "getitem ?p (ustr ''positive'') = [ustr ''abc123'']"
    "getitem ?p (ustr ''negative'') = [ustr ''malo'']"
    "getitem ?p (ustr ''neutral'') = [ustr ''dia'']"
    by (simp_all add: ustr_def)
  have v: "validate ?p"
    by (simp add: schema_properties_def schema_required_def ustr_def)
  have "load_words ucd_excerpt ?p = Inr ([ustr ''abc123''], [ustr ''malo''], [ustr ''dia''],
            [ustr ''abc123'', ustr ''malo'', ustr ''dia''])"
    unfolding load_words_def g using v by (simp add: excerpt_sanitized Let_def) (simp add: ustr_def)
  with invalid_word_rejected_by_scorer [of _ _ _ _ _ ucd_excerpt _ ?p]
  have "\<forall>w \<in> set [ustr ''abc123'', ustr ''malo'', ustr ''dia'']. normal_text w"
    by blast
  then have 3: "list_all normal_text [ustr ''abc123'', ustr ''malo'', ustr ''dia'']"
    by (simp only: list_all_iff)
  from 1 2 3 show ?thesis by blast
qed

theorem invalid_word_counterexample:
  "\<not> isalpha ucd_excerpt (ustr ''abc123'') \<and>
   load_words ucd_excerpt (JObject
       [(ustr ''positive'', JArray [JString (ustr ''abc123'')]),
        (ustr ''negative'', JArray [JString (ustr ''malo'')]),
        (ustr ''neutral'', JArray [JString (ustr ''dia'')])])
     = Inr ([ustr ''abc123''], [ustr ''malo''], [ustr ''dia''],
            [ustr ''abc123'', ustr ''malo'', ustr ''dia''])"
proof -
  let ?p = "JObject
       [(ustr ''positive'', JArray [JString (ustr ''abc123'')]),
        (ustr ''negative'', JArray [JString (ustr ''malo'')]),
        (ustr ''neutral'', JArray [JString (ustr ''dia'')])]"
  have g: "getitem ?p (ustr ''positive'') = [ustr ''abc123'']"
    "getitem ?p (ustr ''negative'') = [ustr ''malo'']"
    "getitem ?p (ustr ''neutral'') = [ustr ''dia'']"
    by (simp_all add: ustr_def)
  have v: "validate ?p"
    by (simp add: schema_properties_def schema_required_def ustr_def)
  have n: "\<not> isalpha ucd_excerpt (ustr ''abc123'')"
    by (simp add: ucd_defs eval_defs)
  have "load_words ucd_excerpt ?p = Inr ([ustr ''abc123''], [ustr ''malo''], [ustr ''dia''],
            [ustr ''abc123'', ustr ''malo'', ustr ''dia''])"
    unfolding load_words_def g using v by (simp add: excerpt_sanitized Let_def) (simp add: ustr_def)
  with n show ?thesis by blast
qed

subsection \<open>C10\<close>

text \<open>
  C10.  For every text and non-empty lists of alphabetic words \<open>P\<close>, \<open>N\<close>, \<open>G\<close>, the
  three count vectors and the classification vector are returned, and the classification
  vector of \<open>P\<close>, \<open>N\<close>, \<open>G\<close> is the list of the sums of the count vectors of the text
  against \<open>P\<close>, against \<open>N\<close> and against \<open>G\<close>.
\<close>

theorem classification_is_sum_of_counts:
  assumes "valid_words U P" and "valid_words U N" and "valid_words U G"
  shows "\<exists>a b c. get_count_vector U t P = Inr a \<and> get_count_vector U t N = Inr b \<and>
           get_count_vector U t G = Inr c \<and>
           get_classification_vector U P N G t = Inr [sum_list a, sum_list b, sum_list c]"
  using assms
  by (simp add: get_count_vector_valid get_classification_vector_valid count_tokens_sum)

theorem classification_is_sum_of_counts_witness:
  "valid_words ucd_excerpt [ustr ''bueno''] \<and> valid_words ucd_excerpt [ustr ''dia''] \<and>
   valid_words ucd_excerpt [ustr ''malo''] \<and>
   (\<exists>a b c. get_count_vector ucd_excerpt (ustr ''malo dia malo'') [ustr ''bueno''] = Inr a \<and>
      get_count_vector ucd_excerpt (ustr ''malo dia malo'') [ustr ''dia''] = Inr b \<and>
      get_count_vector ucd_excerpt (ustr ''malo dia malo'') [ustr ''malo''] = Inr c \<and>
      get_classification_vector ucd_excerpt [ustr ''bueno''] [ustr ''dia''] [ustr ''malo'']
        (ustr ''malo dia malo'') = Inr [sum_list a, sum_list b, sum_list c])"
  using classification_is_sum_of_counts [OF valid_lexicon(3) valid_lexicon(5) valid_lexicon(4),
      of "ustr ''malo dia malo''"] valid_lexicon
  by blast

end
